theory Spec2Isabelle
  imports
    Complex_Main
    "HOL-Library.Char_ord"
    "HOL-Library.List_Lexorder"
    "HOL-Library.Product_Lexorder"
    "HOL-Library.Finite_Map"
begin

section \<open>Walking-network isochrone engine (notebooks/ch6\_isochrones.py)\<close>

text \<open>
  The notebook computes with Python floats; the model computes with exact reals, so
  rounding, overflow, NaN and infinities are outside the model. Connector identifiers
  are Python strings: \<open>string\<close> with the lexicographic order of \<open>List_Lexorder\<close> over
  \<open>Char_ord\<close>. Tuples compare lexicographically (\<open>Product_Lexorder\<close>), as Python
  tuples do.
\<close>

subsection \<open>Data\<close>

type_synonym connector_id = string

text \<open>An adjacency entry \<open>(neighbour, cost, sub_length)\<close>.\<close>
type_synonym adj_entry = "connector_id \<times> real \<times> real"

text \<open>\<open>graph: dict[str, list[tuple[str, float, float]]]\<close>, a finite dictionary.\<close>
type_synonym graph = "(connector_id, adj_entry list) fmap"

text \<open>
  \<open>connector_coords: dict[str, tuple[float, float]]\<close> in iteration order:
  \<open>(id, lat, lng)\<close>.
\<close>
type_synonym connector_table = "(connector_id \<times> real \<times> real) list"

datatype py_error = KeyError | ZeroDivisionError | ValueError

text \<open>
  One element of a segment's \<open>connectors\<close> list. A dict carries the optional keys
  \<open>connector_id\<close>, \<open>id\<close> and \<open>at\<close>; anything that is not a dict is \<open>ItemOther\<close>.
\<close>
datatype conn_item =
  ItemDict "connector_id option" "connector_id option" "real option"
| ItemOther

record segment_row =
  connectors :: "conn_item list option"
  length_m :: real

record gstate =
  graph :: graph
  edge_count :: nat
  skipped_segments :: nat

subsection \<open>\<open>_build_graph\<close>\<close>

text \<open>\<open>graph.get(k, [])\<close>, which is also what \<open>graph[k]\<close> reads on a \<open>defaultdict(list)\<close>.\<close>
definition adj :: "graph \<Rightarrow> connector_id \<Rightarrow> adj_entry list" where
  "adj g k = (case fmlookup g k of None \<Rightarrow> [] | Some es \<Rightarrow> es)"

text \<open>\<open>graph[k].append(e)\<close> on a \<open>defaultdict(list)\<close>.\<close>
definition graph_append :: "graph \<Rightarrow> connector_id \<Rightarrow> adj_entry \<Rightarrow> graph" where
  "graph_append g k e = fmupd k (adj g k @ [e]) g"

definition in_table :: "connector_table \<Rightarrow> connector_id \<Rightarrow> bool" where
  "in_table coords c = (c \<in> fst ` set coords)"

text \<open>\<open>_item.get("connector_id", _item.get("id", ""))\<close>\<close>
fun item_cid :: "connector_id option \<Rightarrow> connector_id option \<Rightarrow> connector_id" where
  "item_cid (Some c) _ = c"
| "item_cid None (Some i) = i"
| "item_cid None None = ''''"

text \<open>\<open>_item.get("at", 0.0)\<close>\<close>
fun item_at :: "real option \<Rightarrow> real" where
  "item_at (Some l) = l"
| "item_at None = 0"

text \<open>
  The loop over \<open>_connectors\<close> that fills \<open>_cids\<close> and \<open>_lrs\<close>: a dict whose
  identifier is a key of \<open>connector_coords\<close> contributes, everything else is passed over.
\<close>
fun collect_connectors ::
  "connector_table \<Rightarrow> conn_item list \<Rightarrow> connector_id list \<times> real list" where
  "collect_connectors coords [] = ([], [])"
| "collect_connectors coords (ItemDict c i a # rest) =
     (let (cids, lrs) = collect_connectors coords rest in
      if in_table coords (item_cid c i)
      then (item_cid c i # cids, item_at a # lrs)
      else (cids, lrs))"
| "collect_connectors coords (ItemOther # rest) = collect_connectors coords rest"

text \<open>
  The loop \<open>for _i in range(len(_cids) - 1)\<close> over the sorted pairs
  \<open>(_lrs[i], _cids[i])\<close>. The division raises when the walking speed is zero.
\<close>
fun edge_loop ::
  "real \<Rightarrow> real \<Rightarrow> (real \<times> connector_id) list \<Rightarrow> gstate \<Rightarrow> py_error + gstate" where
  "edge_loop len spd ((l1, c1) # (l2, c2) # rest) st =
     (let span = l2 - l1 in
      if span \<le> 0 then edge_loop len spd ((l2, c2) # rest) st
      else
        let sub_m = len * span in
        if spd = 0 then Inl ZeroDivisionError
        else
          let cost = sub_m / spd;
              g1 = graph_append (graph st) c1 (c2, cost, sub_m);
              g2 = graph_append g1 c2 (c1, cost, sub_m)
          in edge_loop len spd ((l2, c2) # rest)
               (st\<lparr>graph := g2, edge_count := edge_count st + 1\<rparr>))"
| "edge_loop len spd [p] st = Inr st"
| "edge_loop len spd [] st = Inr st"

definition skip_segment :: "gstate \<Rightarrow> gstate" where
  "skip_segment st = st\<lparr>skipped_segments := skipped_segments st + 1\<rparr>"

text \<open>The sorted pairs \<open>sorted(zip(_lrs, _cids))\<close> of one row.\<close>
definition sorted_pairs :: "connector_table \<Rightarrow> conn_item list \<Rightarrow> (real \<times> connector_id) list" where
  "sorted_pairs coords items =
     (let (cids, lrs) = collect_connectors coords items in sort (zip lrs cids))"

text \<open>The body of the loop over the rows of \<open>segments_df\<close>.\<close>
definition process_segment ::
  "connector_table \<Rightarrow> real \<Rightarrow> segment_row \<Rightarrow> gstate \<Rightarrow> py_error + gstate" where
  "process_segment coords spd r st =
     (case connectors r of
        None \<Rightarrow> Inr (skip_segment st)
      | Some items \<Rightarrow>
          if length items < 2 then Inr (skip_segment st)
          else
            let (cids, lrs) = collect_connectors coords items in
            if length cids < 2 then Inr (skip_segment st)
            else edge_loop (length_m r) spd (sort (zip lrs cids)) st)"

fun segments_loop ::
  "connector_table \<Rightarrow> real \<Rightarrow> segment_row list \<Rightarrow> gstate \<Rightarrow> py_error + gstate" where
  "segments_loop coords spd [] st = Inr st"
| "segments_loop coords spd (r # rs) st =
     (case process_segment coords spd r st of
        Inl e \<Rightarrow> Inl e
      | Inr st' \<Rightarrow> segments_loop coords spd rs st')"

definition build_graph ::
  "segment_row list \<Rightarrow> connector_table \<Rightarrow> real \<Rightarrow> py_error + gstate" where
  "build_graph segments_df connector_coords walk_speed_ms =
     segments_loop connector_coords walk_speed_ms segments_df
       \<lparr>graph = fmempty, edge_count = 0, skipped_segments = 0\<rparr>"

text \<open>\<open>graph_node_count = len(graph)\<close>\<close>
definition graph_node_count :: "gstate \<Rightarrow> nat" where
  "graph_node_count st = card (fmdom' (graph st))"

subsection \<open>\<open>_find_origin\<close>\<close>

text \<open>
  \<open>math.radians\<close>, \<open>math.sqrt\<close> (which raises \<open>ValueError\<close> on a negative argument) and
  \<open>math.atan2\<close> over the reals.
\<close>

definition radians :: "real \<Rightarrow> real" where
  "radians x = x * pi / 180"

definition py_sqrt :: "real \<Rightarrow> py_error + real" where
  "py_sqrt x = (if x < 0 then Inl ValueError else Inr (sqrt x))"

definition atan2 :: "real \<Rightarrow> real \<Rightarrow> real" where
  "atan2 y x =
     (if 0 < x then arctan (y / x)
      else if x < 0 then (if 0 \<le> y then arctan (y / x) + pi else arctan (y / x) - pi)
      else if 0 < y then pi / 2
      else if y < 0 then - pi / 2
      else 0)"

text \<open>
  \<open>_haversine_m\<close>. Whether \<open>math.sqrt\<close> raises depends on the double that the
  expression for \<open>_a\<close> evaluates to, and that double is not always the real value of the
  expression. So the value of \<open>_a\<close> is a parameter \<open>fa\<close> of the model, a function of the
  four coordinates; \<open>haversine_a\<close> is the expression itself over the reals. The two square
  roots are taken in the order Python evaluates the arguments of \<open>atan2\<close>.
\<close>

type_synonym haversine_term = "real \<Rightarrow> real \<Rightarrow> real \<Rightarrow> real \<Rightarrow> real"

definition haversine_a :: haversine_term where
  "haversine_a lat1 lng1 lat2 lng2 =
     (let dlat = radians (lat2 - lat1);
          dlng = radians (lng2 - lng1)
      in (sin (dlat / 2))\<^sup>2 + cos (radians lat1) * cos (radians lat2) * (sin (dlng / 2))\<^sup>2)"

definition haversine_m ::
  "haversine_term \<Rightarrow> real \<Rightarrow> real \<Rightarrow> real \<Rightarrow> real \<Rightarrow> py_error + real" where
  "haversine_m fa lat1 lng1 lat2 lng2 =
     (let a = fa lat1 lng1 lat2 lng2 in
      case py_sqrt a of
        Inl e \<Rightarrow> Inl e
      | Inr sa \<Rightarrow>
          (case py_sqrt (1 - a) of
             Inl e \<Rightarrow> Inl e
           | Inr sb \<Rightarrow> Inr (6371000 * 2 * atan2 sa sb)))"

text \<open>
  The loop over \<open>connector_coords.items()\<close>. The accumulator is the pair
  \<open>(origin_id, origin_dist)\<close>: \<open>None\<close> stands for the initial \<open>(None, float("inf"))\<close>,
  below which every real distance lies.
\<close>

fun origin_loop ::
  "haversine_term \<Rightarrow> real \<Rightarrow> real \<Rightarrow> connector_table \<Rightarrow> (connector_id \<times> real) option
     \<Rightarrow> py_error + (connector_id \<times> real) option" where
  "origin_loop fa study_lat study_lng [] best = Inr best"
| "origin_loop fa study_lat study_lng ((c, la, lo) # rest) best =
     (case haversine_m fa study_lat study_lng la lo of
        Inl e \<Rightarrow> Inl e
      | Inr d \<Rightarrow>
          (case best of
             None \<Rightarrow> origin_loop fa study_lat study_lng rest (Some (c, d))
           | Some (origin_id, origin_dist) \<Rightarrow>
               if d < origin_dist then origin_loop fa study_lat study_lng rest (Some (c, d))
               else origin_loop fa study_lat study_lng rest best))"

text \<open>
  After the loop the cell reads \<open>connector_coords[origin_id]\<close>, which raises \<open>KeyError\<close>
  when \<open>origin_id\<close> is still \<open>None\<close>. The result is
  \<open>(origin_id, origin_lat, origin_lng, origin_dist)\<close>.
\<close>

definition find_origin ::
  "haversine_term \<Rightarrow> real \<Rightarrow> real \<Rightarrow> connector_table
     \<Rightarrow> py_error + (connector_id \<times> real \<times> real \<times> real)" where
  "find_origin fa study_lat study_lng connector_coords =
     (case origin_loop fa study_lat study_lng connector_coords None of
        Inl e \<Rightarrow> Inl e
      | Inr None \<Rightarrow> Inl KeyError
      | Inr (Some (origin_id, origin_dist)) \<Rightarrow>
          (case map_of connector_coords origin_id of
             None \<Rightarrow> Inl KeyError
           | Some (origin_lat, origin_lng) \<Rightarrow> Inr (origin_id, origin_lat, origin_lng, origin_dist)))"

subsection \<open>\<open>_run_dijkstra\<close>\<close>

text \<open>
  The search state: the heap \<open>_pq\<close>, the dictionary \<open>reachable\<close> and the set
  \<open>_visited\<close>.
\<close>

record dstate =
  pq :: "(real \<times> connector_id) list"
  reachable :: "connector_id \<rightharpoonup> real"
  visited :: "connector_id set"

text \<open>
  \<open>heapq\<close> by its contract: the queue is a bag of \<open>(cost, node)\<close> tuples,
  \<open>heappush\<close> adds one and \<open>heappop\<close> removes and returns the least tuple. Two tuples
  that compare equal are the same tuple, so the result does not depend on how the heap
  arranges its list.
\<close>

definition heappop :: "(real \<times> connector_id) list \<Rightarrow> (real \<times> connector_id) \<times> (real \<times> connector_id) list" where
  "heappop q = (let m = Min (set q) in (m, remove1 m q))"

definition heappush :: "(real \<times> connector_id) list \<Rightarrow> real \<times> connector_id \<Rightarrow> (real \<times> connector_id) list" where
  "heappush q x = x # q"

text \<open>
The loop \<open>for _nb, _ec, _el in graph.get(_node, [])\<close>.
\<close>

fun push_neighbours ::
  "connector_id set \<Rightarrow> real \<Rightarrow> real \<Rightarrow> adj_entry list \<Rightarrow> (real \<times> connector_id) list
     \<Rightarrow> (real \<times> connector_id) list" where
  "push_neighbours vis cost budget [] q = q"
| "push_neighbours vis cost budget ((nb, ec, el) # rest) q =
     (if nb \<notin> vis then
        let nc = cost + ec in
        if nc \<le> budget then push_neighbours vis cost budget rest (heappush q (nc, nb))
        else push_neighbours vis cost budget rest q
      else push_neighbours vis cost budget rest q)"

text \<open>
One iteration of \<open>while _pq\<close>, for a non-empty queue.
\<close>

definition dijkstra_step :: "graph \<Rightarrow> real \<Rightarrow> dstate \<Rightarrow> dstate" where
  "dijkstra_step g budget s =
     (let ((cost, node), q) = heappop (pq s) in
      if node \<in> visited s then s\<lparr>pq := q\<rparr>
      else
        let vis = insert node (visited s) in
        if cost > budget then s\<lparr>pq := q, visited := vis\<rparr>
        else s\<lparr>pq := push_neighbours vis cost budget (adj g node) q,
               reachable := (reachable s)(node \<mapsto> cost),
               visited := vis\<rparr>)"

text \<open>
  The loop ends: an iteration either visits a key of the (finite) graph for the first
  time, or leaves those alone and shortens the queue.
\<close>

definition unexpanded :: "graph \<Rightarrow> dstate \<Rightarrow> nat" where
  "unexpanded g s = card {n \<in> fmdom' g. n \<notin> visited s}"

lemma heappop_length:
  "q \<noteq> [] \<Longrightarrow> length (snd (heappop q)) < length q"
  by (simp add: heappop_def Let_def length_remove1)

lemma adj_not_dom: "n \<notin> fmdom' g \<Longrightarrow> adj g n = []"
  by (simp add: adj_def fmdom'_notD)

lemma dijkstra_step_decreases:
  assumes "pq s \<noteq> []"
  shows "unexpanded g (dijkstra_step g b s) < unexpanded g s \<or>
         (unexpanded g (dijkstra_step g b s) = unexpanded g s \<and>
          length (pq (dijkstra_step g b s)) < length (pq s))"
proof -
  obtain c n q where hp: "heappop (pq s) = ((c, n), q)"
    by (metis prod.exhaust)
  have lq: "length q < length (pq s)"
    using heappop_length [OF assms] hp by simp
  show ?thesis
  proof (cases "n \<in> visited s")
    case True
    with hp lq show ?thesis by (simp add: dijkstra_step_def unexpanded_def)
  next
    case nv: False
    have vis: "visited (dijkstra_step g b s) = insert n (visited s)"
      using hp nv by (simp add: dijkstra_step_def Let_def)
    show ?thesis
    proof (cases "n \<in> fmdom' g")
      case True
      have "{m \<in> fmdom' g. m \<notin> insert n (visited s)} \<subset> {m \<in> fmdom' g. m \<notin> visited s}"
        using True nv by auto
      then have "card {m \<in> fmdom' g. m \<notin> insert n (visited s)} < card {m \<in> fmdom' g. m \<notin> visited s}"
        by (intro psubset_card_mono) simp_all
      then show ?thesis by (simp add: unexpanded_def vis)
    next
      case False
      then have eq: "{m \<in> fmdom' g. m \<notin> insert n (visited s)} = {m \<in> fmdom' g. m \<notin> visited s}"
        by auto
      have "pq (dijkstra_step g b s) = q"
        using hp nv adj_not_dom [OF False] by (simp add: dijkstra_step_def Let_def)
      with lq eq show ?thesis by (simp add: unexpanded_def vis)
    qed
  qed
qed

function dijkstra_loop :: "graph \<Rightarrow> real \<Rightarrow> dstate \<Rightarrow> dstate" where
  "dijkstra_loop g budget s =
     (if pq s = [] then s else dijkstra_loop g budget (dijkstra_step g budget s))"
  by pat_completeness auto

termination
proof (relation "inv_image (less_than <*lex*> less_than)
    (\<lambda>(g, b, s). (unexpanded g s, length (pq s)))")
  show "wf (inv_image (less_than <*lex*> less_than)
    (\<lambda>(g, b, s). (unexpanded g s, length (pq s))))"
    by (intro wf_inv_image wf_lex_prod wf_less_than)
next
  fix g :: graph and budget :: real and s :: dstate
  assume "pq s \<noteq> []"
  from dijkstra_step_decreases [OF this, of g budget]
  show "((g, budget, dijkstra_step g budget s), (g, budget, s))
        \<in> inv_image (less_than <*lex*> less_than) (\<lambda>(g, b, s). (unexpanded g s, length (pq s)))"
    by auto
qed

declare dijkstra_loop.simps [simp del]

definition dijkstra_init :: "connector_id \<Rightarrow> dstate" where
  "dijkstra_init origin_id = \<lparr>pq = [(0, origin_id)], reachable = Map.empty, visited = {}\<rparr>"

definition run_dijkstra :: "graph \<Rightarrow> connector_id \<Rightarrow> real \<Rightarrow> dstate" where
  "run_dijkstra g origin_id walk_budget_s = dijkstra_loop g walk_budget_s (dijkstra_init origin_id)"

text \<open>
\<open>reachable_count = len(reachable)\<close> and \<open>nodes_explored = len(_visited)\<close>.
\<close>

definition reachable_count :: "dstate \<Rightarrow> nat" where
  "reachable_count s = card (dom (reachable s))"

definition nodes_explored :: "dstate \<Rightarrow> nat" where
  "nodes_explored s = card (visited s)"

subsection \<open>\<open>_compute_isochrone\<close> and \<open>_pedshed\<close>\<close>

text \<open>
  An element of \<open>reachable_points\<close> (keys \<open>id\<close>, \<open>lat\<close>, \<open>lng\<close>, \<open>cost_s\<close>,
  \<open>cost_min\<close>) and an element of \<open>isochrone_bands\<close>.
\<close>

record reachable_point =
  p_id :: connector_id
  p_lat :: real
  p_lng :: real
  cost_s :: real
  cost_min :: real

record isochrone_band =
  band_min :: int
  band_s :: int
  node_count :: nat
  area_m2 :: real
  area_km2 :: real
  area_ha :: real
  geojson :: "string option"

text \<open>
  The geometry query \<open>conn.execute(...).fetchone()\<close> is a parameter: from the
  \<open>(lng, lat)\<close> points of the \<open>MULTIPOINT\<close> to the hull's GeoJSON and area, or
  \<open>None\<close> when the call raises.
\<close>

type_synonym geometry_service = "(real \<times> real) list \<Rightarrow> (string \<times> real) option"

text \<open>
\<open>int(x)\<close> on a float truncates towards zero.
\<close>

definition py_int :: "real \<Rightarrow> int" where
  "py_int x = (if 0 \<le> x then \<lfloor>x\<rfloor> else \<lceil>x\<rceil>)"

text \<open>
  \<open>_bands\<close>: \<open>sorted(set(...))\<close> is the sorted list without repetitions; the budget's
  own minute count is added when it is missing.
\<close>

definition band_thresholds :: "real \<Rightarrow> int list" where
  "band_thresholds walk_budget_s =
     (let band_minutes = [5, 10, 15, 20];
          bands = sort (remdups (filter (\<lambda>b. real_of_int (b * 60) \<le> walk_budget_s) band_minutes));
          budget_min = py_int (walk_budget_s / 60)
      in if budget_min \<notin> set bands then sort (bands @ [budget_min]) else bands)"

text \<open>
\<open>_pts = [p for p in reachable_points if p["cost_s"] <= _bs]\<close> for \<open>_bs = _bm * 60\<close>.
\<close>

definition band_points :: "reachable_point list \<Rightarrow> int \<Rightarrow> reachable_point list" where
  "band_points reachable_points bm =
     filter (\<lambda>p. cost_s p \<le> real_of_int (bm * 60)) reachable_points"

text \<open>
The \<open>try\<close> block: \<open>(_gj, _am)\<close>, which is \<open>(None, 0.0)\<close> after an exception.
\<close>

definition hull_query :: "geometry_service \<Rightarrow> reachable_point list \<Rightarrow> string option \<times> real" where
  "hull_query svc pts =
     (case svc (map (\<lambda>p. (p_lng p, p_lat p)) pts) of
        Some (gj, am) \<Rightarrow> (Some gj, am)
      | None \<Rightarrow> (None, 0))"

fun bands_loop ::
  "geometry_service \<Rightarrow> reachable_point list \<Rightarrow> int list \<Rightarrow> isochrone_band list" where
  "bands_loop svc reachable_points [] = []"
| "bands_loop svc reachable_points (bm # rest) =
     (let bs = bm * 60;
          pts = filter (\<lambda>p. cost_s p \<le> real_of_int bs) reachable_points
      in if length pts < 3 then bands_loop svc reachable_points rest
         else
           let (gj, am) = hull_query svc pts in
           \<lparr>band_min = bm, band_s = bs, node_count = length pts,
            area_m2 = am, area_km2 = am / 1000000, area_ha = am / 10000,
            geojson = gj\<rparr> # bands_loop svc reachable_points rest)"

definition compute_isochrone ::
  "geometry_service \<Rightarrow> reachable_point list \<Rightarrow> real \<Rightarrow> isochrone_band list \<times> real" where
  "compute_isochrone svc reachable_points walk_budget_s =
     (let isochrone_bands = bands_loop svc reachable_points (band_thresholds walk_budget_s);
          isochrone_area_km2 =
            (if isochrone_bands \<noteq> [] then area_km2 (last isochrone_bands) else 0)
      in (isochrone_bands, isochrone_area_km2))"

text \<open>
\<open>pedshed_area_m2\<close> and \<open>pedshed_area_km2\<close> of \<open>utils/overture.py\<close>, and the ratio of \<open>_pedshed\<close>.
\<close>

definition pedshed_area_m2 :: "real \<Rightarrow> real" where
  "pedshed_area_m2 radius_m = pi * radius_m\<^sup>2"

definition pedshed_area_km2 :: "real \<Rightarrow> real" where
  "pedshed_area_km2 radius_m = pedshed_area_m2 radius_m / 1000000"

definition pedshed :: "real \<Rightarrow> real \<Rightarrow> real" where
  "pedshed isochrone_area_km2 circle_area_km2 =
     (if circle_area_km2 > 0 then isochrone_area_km2 / circle_area_km2 else 0)"

section \<open>Notions used to state the properties\<close>

text \<open>
  The sub-edges \<open>(a, b, cost, sub_m)\<close> that the loop over one sorted pair list inserts,
  the insertion of one of them, and the sub-edges of a row.
\<close>

fun sub_edges ::
  "real \<Rightarrow> real \<Rightarrow> (real \<times> connector_id) list \<Rightarrow> (connector_id \<times> connector_id \<times> real \<times> real) list" where
  "sub_edges len spd ((l1, c1) # (l2, c2) # rest) =
     (if l2 - l1 \<le> 0 then sub_edges len spd ((l2, c2) # rest)
      else (c1, c2, len * (l2 - l1) / spd, len * (l2 - l1)) # sub_edges len spd ((l2, c2) # rest))"
| "sub_edges len spd [p] = []"
| "sub_edges len spd [] = []"

fun add_sub_edge :: "connector_id \<times> connector_id \<times> real \<times> real \<Rightarrow> gstate \<Rightarrow> gstate" where
  "add_sub_edge (a, b, cost, sub_m) st =
     st\<lparr>graph := graph_append (graph_append (graph st) a (b, cost, sub_m)) b (a, cost, sub_m),
        edge_count := edge_count st + 1\<rparr>"

definition segment_sub_edges ::
  "connector_table \<Rightarrow> real \<Rightarrow> segment_row \<Rightarrow> (connector_id \<times> connector_id \<times> real \<times> real) list" where
  "segment_sub_edges coords spd r =
     (case connectors r of
        None \<Rightarrow> []
      | Some items \<Rightarrow>
          if length items < 2 then []
          else
            let (cids, lrs) = collect_connectors coords items in
            if length cids < 2 then []
            else sub_edges (length_m r) spd (sort (zip lrs cids)))"

definition cost_sum :: "(connector_id \<times> connector_id \<times> real \<times> real) list \<Rightarrow> real" where
  "cost_sum es = sum_list (map (\<lambda>(a, b, c, l). c) es)"

definition row_cids :: "connector_table \<Rightarrow> segment_row \<Rightarrow> connector_id list" where
  "row_cids coords r =
     (case connectors r of None \<Rightarrow> [] | Some items \<Rightarrow> fst (collect_connectors coords items))"

text \<open>
The adjacency entries of a graph as quadruples \<open>(a, b, cost, sub_m)\<close>.
\<close>

definition entries :: "graph \<Rightarrow> (connector_id \<times> connector_id \<times> real \<times> real) set" where
  "entries g = {(a, b, c, l). (b, c, l) \<in> set (adj g a)}"

definition flip_edge :: "connector_id \<times> connector_id \<times> real \<times> real \<Rightarrow> connector_id \<times> connector_id \<times> real \<times> real" where
  "flip_edge e = (case e of (a, b, c, l) \<Rightarrow> (b, a, c, l))"

text \<open>
  A walk from \<open>s\<close> with its cumulative cost, summed in the order the search adds the
  edge costs; \<open>min_cost g s v c\<close>: \<open>c\<close> is the least cost of a walk from \<open>s\<close> to \<open>v\<close>.
\<close>

inductive walk :: "graph \<Rightarrow> connector_id \<Rightarrow> real \<Rightarrow> connector_id \<Rightarrow> bool"
  for g :: graph and s :: connector_id where
  walk_refl: "walk g s 0 s"
| walk_step: "walk g s c u \<Longrightarrow> (v, w, l) \<in> set (adj g u) \<Longrightarrow> walk g s (c + w) v"

definition min_cost :: "graph \<Rightarrow> connector_id \<Rightarrow> connector_id \<Rightarrow> real \<Rightarrow> bool" where
  "min_cost g s v c = (walk g s c v \<and> (\<forall>c'. walk g s c' v \<longrightarrow> c \<le> c'))"

definition nonneg_costs :: "graph \<Rightarrow> bool" where
  "nonneg_costs g = (\<forall>u\<in>fmdom' g. \<forall>e\<in>set (adj g u). 0 \<le> fst (snd e))"

text \<open>
  The state after \<open>k\<close> iterations of the loop is \<open>(dijkstra_iter g b ^^ k)\<close> of the
  initial state: an iteration does nothing once the queue is empty.
\<close>

definition dijkstra_iter :: "graph \<Rightarrow> real \<Rightarrow> dstate \<Rightarrow> dstate" where
  "dijkstra_iter g budget s = (if pq s = [] then s else dijkstra_step g budget s)"

text \<open>
The invariants of the search.
\<close>

definition search_inv :: "graph \<Rightarrow> connector_id \<Rightarrow> real \<Rightarrow> dstate \<Rightarrow> bool" where
  "search_inv g s0 b s =
     ((\<forall>c n. (c, n) \<in> set (pq s) \<longrightarrow> walk g s0 c n \<and> c \<le> b) \<and>
      (\<forall>v c. reachable s v = Some c \<longrightarrow> min_cost g s0 v c \<and> c \<le> b) \<and>
      visited s = dom (reachable s) \<and>
      (\<forall>u c v w l. reachable s u = Some c \<longrightarrow> (v, w, l) \<in> set (adj g u) \<longrightarrow> c + w \<le> b \<longrightarrow>
          v \<in> visited s \<or> (c + w, v) \<in> set (pq s)) \<and>
      (s0 \<in> visited s \<or> (0, s0) \<in> set (pq s)))"

definition budget_inv :: "real \<Rightarrow> dstate \<Rightarrow> bool" where
  "budget_inv b s = ((\<forall>e\<in>set (pq s). fst e \<le> b) \<and> visited s = dom (reachable s))"

text \<open>
  The great-circle distance on a sphere of radius 6 371 000 m between two points given
  in degrees: the radius times the central angle, by the spherical law of cosines.
\<close>

definition great_circle_m :: "real \<Rightarrow> real \<Rightarrow> real \<Rightarrow> real \<Rightarrow> real" where
  "great_circle_m lat1 lng1 lat2 lng2 =
     6371000 * arccos (sin (lat1 * pi / 180) * sin (lat2 * pi / 180) +
                       cos (lat1 * pi / 180) * cos (lat2 * pi / 180) *
                       cos ((lng2 - lng1) * pi / 180))"

text \<open>
  A table row whose \<open>_a\<close> lies in the domain of both square roots, and the distance the
  code computes for such a row.
\<close>

definition row_in_range :: "haversine_term \<Rightarrow> real \<Rightarrow> real \<Rightarrow> connector_id \<times> real \<times> real \<Rightarrow> bool" where
  "row_in_range fa study_lat study_lng row =
     (case row of (c, la, lo) \<Rightarrow>
        0 \<le> fa study_lat study_lng la lo \<and> fa study_lat study_lng la lo \<le> 1)"

definition row_dist :: "haversine_term \<Rightarrow> real \<Rightarrow> real \<Rightarrow> connector_id \<times> real \<times> real \<Rightarrow> real" where
  "row_dist fa study_lat study_lng row =
     (case row of (c, la, lo) \<Rightarrow>
        6371000 * 2 * atan2 (sqrt (fa study_lat study_lng la lo))
                            (sqrt (1 - fa study_lat study_lng la lo)))"

text \<open>
  The accumulator of the origin loop after the rows \<open>rows\<close>: the first row of least
  distance.
\<close>

definition nearest_first ::
  "haversine_term \<Rightarrow> real \<Rightarrow> real \<Rightarrow> connector_table \<Rightarrow> (connector_id \<times> real) option \<Rightarrow> bool" where
  "nearest_first fa study_lat study_lng rows best =
     (case best of
        None \<Rightarrow> rows = []
      | Some (c, d) \<Rightarrow>
          (\<exists>ys zs la lo. rows = ys @ (c, la, lo) # zs \<and>
             d = row_dist fa study_lat study_lng (c, la, lo) \<and>
             (\<forall>r\<in>set ys. d < row_dist fa study_lat study_lng r) \<and>
             (\<forall>r\<in>set zs. d \<le> row_dist fa study_lat study_lng r)))"


text \<open>
The record appended for a threshold, and the area recorded for a point list.
\<close>

definition make_band :: "geometry_service \<Rightarrow> reachable_point list \<Rightarrow> int \<Rightarrow> isochrone_band" where
  "make_band svc reachable_points bm =
     (let pts = band_points reachable_points bm;
          (gj, am) = hull_query svc pts
      in \<lparr>band_min = bm, band_s = bm * 60, node_count = length pts,
          area_m2 = am, area_km2 = am / 1000000, area_ha = am / 10000,
          geojson = gj\<rparr>)"

definition recorded_area :: "geometry_service \<Rightarrow> (real \<times> real) list \<Rightarrow> real" where
  "recorded_area svc ps = (case svc ps of Some (gj, am) \<Rightarrow> am | None \<Rightarrow> 0)"

section \<open>The graph builder\<close>

lemma adj_graph_append:
  "adj (graph_append g k e) k' = (if k = k' then adj g k @ [e] else adj g k')"
  by (simp add: adj_def graph_append_def)

lemma entries_graph_append:
  "entries (graph_append g a (b, c, l)) = insert (a, b, c, l) (entries g)"
  by (auto simp: entries_def adj_graph_append split: if_splits)

lemma entries_add_sub_edge:
  "entries (graph (add_sub_edge e st)) = {e, flip_edge e} \<union> entries (graph st)"
  by (cases e) (auto simp: entries_graph_append flip_edge_def)

lemma entries_fold_add:
  "entries (graph (fold add_sub_edge es st)) = set es \<union> flip_edge ` set es \<union> entries (graph st)"
  by (induction es arbitrary: st) (auto simp: entries_add_sub_edge)

lemma edge_loop_fold:
  "spd \<noteq> 0 \<Longrightarrow> edge_loop len spd ps st = Inr (fold add_sub_edge (sub_edges len spd ps) st)"
  by (induction len spd ps st rule: edge_loop.induct) (simp_all add: Let_def)

lemma edge_loop_zero_speed:
  "edge_loop len 0 ps st = (if sub_edges len 0 ps = [] then Inr st else Inl ZeroDivisionError)"
  by (induction len "0::real" ps st rule: edge_loop.induct) (simp_all add: Let_def)

lemma edge_loop_Inr:
  "edge_loop len spd ps st = Inr st' \<Longrightarrow> st' = fold add_sub_edge (sub_edges len spd ps) st"
  by (cases "spd = 0") (auto simp: edge_loop_fold edge_loop_zero_speed split: if_splits)

lemma graph_skip_segment [simp]: "graph (skip_segment st) = graph st"
  by (simp add: skip_segment_def)

lemma process_segment_fold:
  assumes "process_segment coords spd r st = Inr st'"
  shows "graph st' = graph (fold add_sub_edge (segment_sub_edges coords spd r) st)"
proof (cases "connectors r")
  case None
  with assms show ?thesis
    by (auto simp: process_segment_def segment_sub_edges_def)
next
  case (Some items)
  obtain cids lrs where c: "collect_connectors coords items = (cids, lrs)"
    by (cases "collect_connectors coords items")
  show ?thesis
  proof (cases "length items < 2 \<or> length cids < 2")
    case True
    with assms Some c show ?thesis
      by (auto simp: process_segment_def segment_sub_edges_def split: if_splits)
  next
    case False
    with assms Some c
    have "edge_loop (length_m r) spd (sort (zip lrs cids)) st = Inr st'"
      by (simp add: process_segment_def)
    from edge_loop_Inr [OF this] False Some c show ?thesis
      by (simp add: segment_sub_edges_def)
  qed
qed

lemma process_segment_Inr:
  assumes "process_segment coords spd r st = Inr st'"
  shows "entries (graph st') =
    set (segment_sub_edges coords spd r) \<union> flip_edge ` set (segment_sub_edges coords spd r)
      \<union> entries (graph st)"
  by (simp add: process_segment_fold [OF assms] entries_fold_add)

lemma segments_loop_Inr:
  "segments_loop coords spd rs st = Inr st' \<Longrightarrow>
   entries (graph st') =
     (\<Union>r\<in>set rs. set (segment_sub_edges coords spd r) \<union> flip_edge ` set (segment_sub_edges coords spd r))
       \<union> entries (graph st)"
proof (induction rs arbitrary: st)
  case Nil
  then show ?case by simp
next
  case (Cons r rs)
  from Cons.prems obtain st1 where
    p: "process_segment coords spd r st = Inr st1" and
    l: "segments_loop coords spd rs st1 = Inr st'"
    by (auto split: sum.splits)
  show ?case
    unfolding Cons.IH [OF l] process_segment_Inr [OF p] by auto
qed

lemma entries_fmempty [simp]: "entries fmempty = {}"
  by (simp add: entries_def adj_def)

lemma build_graph_entries:
  "build_graph rs coords spd = Inr st \<Longrightarrow>
   entries (graph st) =
     (\<Union>r\<in>set rs. set (segment_sub_edges coords spd r) \<union> flip_edge ` set (segment_sub_edges coords spd r))"
  by (auto simp: build_graph_def dest!: segments_loop_Inr)

lemma segments_loop_total:
  "spd \<noteq> 0 \<Longrightarrow> \<exists>st'. segments_loop coords spd rs st = Inr st'"
proof (induction rs arbitrary: st)
  case (Cons r rs)
  have "\<exists>st1. process_segment coords spd r st = Inr st1"
    using Cons.prems
    by (auto simp: process_segment_def edge_loop_fold split: option.splits prod.splits)
  with Cons show ?case by auto
qed simp

lemma build_graph_total: "spd \<noteq> 0 \<Longrightarrow> \<exists>st. build_graph rs coords spd = Inr st"
  by (simp add: build_graph_def segments_loop_total)

lemma flip_flip [simp]: "flip_edge (flip_edge e) = e"
  by (cases e) (simp add: flip_edge_def)

lemma build_graph_symmetric:
  assumes "build_graph rs coords spd = Inr st" "e \<in> entries (graph st)"
  shows "flip_edge e \<in> entries (graph st)"
  using assms(2) unfolding build_graph_entries [OF assms(1)] by auto

lemma sub_edges_span:
  "(a, b, c, l) \<in> set (sub_edges len spd ps) \<Longrightarrow>
   \<exists>span>0. l = len * span \<and> c = len * span / spd"
proof (induction len spd ps rule: sub_edges.induct)
  case (1 len spd l1 c1 l2 c2 rest)
  show ?case
  proof (cases "l2 - l1 \<le> 0")
    case True
    with 1 show ?thesis by simp
  next
    case False
    with "1.prems" consider "l = len * (l2 - l1) \<and> c = len * (l2 - l1) / spd"
      | "(a, b, c, l) \<in> set (sub_edges len spd ((l2, c2) # rest))"
      by auto
    then show ?thesis
    proof cases
      case 1
      with False show ?thesis by (intro exI [of _ "l2 - l1"]) simp
    next
      case 2
      with "1.IH"(2) False show ?thesis by simp
    qed
  qed
qed simp_all

lemma sub_edges_distinct:
  "distinct (map snd ps) \<Longrightarrow> (a, b, c, l) \<in> set (sub_edges len spd ps) \<Longrightarrow> a \<noteq> b"
proof (induction len spd ps rule: sub_edges.induct)
  case (1 len spd l1 c1 l2 c2 rest)
  then show ?case by (auto split: if_splits)
qed simp_all

lemma collect_connectors_length:
  "collect_connectors coords items = (cids, lrs) \<Longrightarrow> length lrs = length cids"
  by (induction coords items arbitrary: cids lrs rule: collect_connectors.induct)
     (auto split: prod.splits if_splits)

lemma collect_connectors_le:
  "length (fst (collect_connectors coords items)) \<le> length items"
  by (induction coords items rule: collect_connectors.induct) (auto split: prod.splits)

lemma distinct_snd_sort_zip:
  assumes "length lrs = length cids" "distinct cids"
  shows "distinct (map snd (sort (zip lrs cids)))"
proof -
  have "map snd (zip lrs cids) = cids" using assms(1) by simp
  then have "card (snd ` set (zip lrs cids)) = length (zip lrs cids)"
    using assms by (metis distinct_card length_map list.set_map)
  then have "card (set (map snd (sort (zip lrs cids)))) = length (map snd (sort (zip lrs cids)))"
    by simp
  then show ?thesis by (rule card_distinct)
qed

lemma sorted_fst:
  fixes ps :: "(real \<times> connector_id) list"
  shows "sorted ps \<Longrightarrow> sorted (map fst ps)"
  by (induction ps) (auto simp: less_eq_prod_def)

lemma cost_sum_sorted:
  "sorted (map fst ps) \<Longrightarrow> ps \<noteq> [] \<Longrightarrow>
   cost_sum (sub_edges len spd ps) = len * (fst (last ps) - fst (hd ps)) / spd"
proof (induction len spd ps rule: sub_edges.induct)
  case (1 len spd l1 c1 l2 c2 rest)
  then have le: "l1 \<le> l2" by simp
  from 1 have ih1: "l2 - l1 \<le> 0 \<Longrightarrow> cost_sum (sub_edges len spd ((l2, c2) # rest)) =
      len * (fst (last ((l2, c2) # rest)) - l2) / spd"
    and ih2: "\<not> l2 - l1 \<le> 0 \<Longrightarrow> cost_sum (sub_edges len spd ((l2, c2) # rest)) =
      len * (fst (last ((l2, c2) # rest)) - l2) / spd"
    by auto
  show ?case
  proof (cases "l2 - l1 \<le> 0")
    case True
    with le have "l1 = l2" by simp
    with True ih1 show ?thesis by simp
  next
    case False
    with ih2 show ?thesis
      by (simp add: cost_sum_def algebra_simps add_divide_distrib diff_divide_distrib)
  qed
qed (simp_all add: cost_sum_def)

lemma sorted_hd_Min: "sorted xs \<Longrightarrow> xs \<noteq> [] \<Longrightarrow> hd xs = Min (set xs)"
  by (cases xs) (auto intro!: Min_eqI [symmetric])

lemma sorted_last_Max: "sorted xs \<Longrightarrow> xs \<noteq> [] \<Longrightarrow> last xs = Max (set xs)"
proof (induction xs)
  case (Cons x xs)
  show ?case
  proof (cases "xs = []")
    case False
    with Cons have "last xs = Max (set xs)" by simp
    moreover from Cons.prems False have "x \<le> Max (set xs)"
      by (metis List.finite_set Max_ge_iff last_in_set set_empty sorted_simps(2))
    ultimately show ?thesis using False by (simp add: max_absorb2)
  qed simp
qed simp

lemma segment_sub_edges_cost:
  assumes "connectors r = Some items"
    and "collect_connectors coords items = (cids, lrs)"
    and "2 \<le> length cids"
  shows "cost_sum (segment_sub_edges coords spd r) =
           length_m r * (Max (set lrs) - Min (set lrs)) / spd"
proof -
  let ?ps = "sort (zip lrs cids)"
  have len: "length lrs = length cids" by (rule collect_connectors_length [OF assms(2)])
  have "length cids \<le> length items"
    using collect_connectors_le [of coords items] assms(2) by simp
  with assms have se: "segment_sub_edges coords spd r = sub_edges (length_m r) spd ?ps"
    by (simp add: segment_sub_edges_def)
  have lp: "length ?ps = length cids" using len by simp
  have ne: "?ps \<noteq> []"
  proof
    assume "?ps = []"
    then have "length ?ps = 0" by (simp only: list.size)
    with lp assms(3) show False by linarith
  qed
  have so: "sorted (map fst ?ps)" by (rule sorted_fst) simp
  have "set (map fst ?ps) = set (map fst (zip lrs cids))" by simp
  also have "\<dots> = set lrs" using len by (simp only: map_fst_zip)
  finally have st: "set (map fst ?ps) = set lrs" .
  have "fst (hd ?ps) = hd (map fst ?ps)" using ne by (simp add: hd_map)
  also have "\<dots> = Min (set (map fst ?ps))" using so ne by (intro sorted_hd_Min) simp_all
  finally have h: "fst (hd ?ps) = Min (set lrs)" using st by simp
  have "fst (last ?ps) = last (map fst ?ps)" using ne by (simp add: last_map)
  also have "\<dots> = Max (set (map fst ?ps))" using so ne by (intro sorted_last_Max) simp_all
  finally have l: "fst (last ?ps) = Max (set lrs)" using st by simp
  show ?thesis
    unfolding se cost_sum_sorted [OF so ne] h l ..
qed

lemma process_segment_not_skipped:
  assumes "connectors r = Some items"
    and "collect_connectors coords items = (cids, lrs)"
    and "2 \<le> length cids" and "spd \<noteq> 0"
  shows "process_segment coords spd r st =
           Inr (fold add_sub_edge (segment_sub_edges coords spd r) st)"
proof -
  have "length cids \<le> length items"
    using collect_connectors_le [of coords items] assms(2) by simp
  with assms show ?thesis
    by (simp add: process_segment_def segment_sub_edges_def edge_loop_fold)
qed

lemma build_graph_adj_symmetric:
  assumes "build_graph segs coords spd = Inr st" "(b, c, l) \<in> set (adj (graph st) a)"
  shows "(a, c, l) \<in> set (adj (graph st) b)"
proof -
  from assms(2) have "(a, b, c, l) \<in> entries (graph st)" by (simp add: entries_def)
  from build_graph_symmetric [OF assms(1) this] show ?thesis
    by (simp add: entries_def flip_edge_def)
qed

lemma build_graph_entry_origin:
  assumes "build_graph segs coords spd = Inr st" "(b, c, l) \<in> set (adj (graph st) a)"
  obtains r where "r \<in> set segs"
    and "(a, b, c, l) \<in> set (segment_sub_edges coords spd r) \<or>
         (b, a, c, l) \<in> set (segment_sub_edges coords spd r)"
proof -
  from assms(2) have "(a, b, c, l) \<in> entries (graph st)" by (simp add: entries_def)
  then show thesis
    unfolding build_graph_entries [OF assms(1)]
    by (auto simp: flip_edge_def intro: that)
qed

lemma segment_sub_edges_cases:
  assumes "e \<in> set (segment_sub_edges coords spd r)"
  shows "\<exists>items cids lrs. connectors r = Some items \<and>
           collect_connectors coords items = (cids, lrs) \<and>
           e \<in> set (sub_edges (length_m r) spd (sort (zip lrs cids)))"
proof (cases "connectors r")
  case None
  with assms show ?thesis by (simp add: segment_sub_edges_def)
next
  case (Some items)
  obtain cids lrs where c: "collect_connectors coords items = (cids, lrs)"
    by (cases "collect_connectors coords items")
  with assms Some show ?thesis
    by (simp add: segment_sub_edges_def split: if_splits)
qed

lemma segment_sub_edges_positive:
  assumes "(a, b, c, l) \<in> set (segment_sub_edges coords spd r)" "0 < spd" "0 < length_m r"
  shows "0 < c"
proof -
  from segment_sub_edges_cases [OF assms(1)]
  obtain ps where "(a, b, c, l) \<in> set (sub_edges (length_m r) spd ps)"
    by blast
  from sub_edges_span [OF this] assms(2,3) show ?thesis by auto
qed

lemma segment_sub_edges_no_loop:
  assumes "(a, b, c, l) \<in> set (segment_sub_edges coords spd r)" "distinct (row_cids coords r)"
  shows "a \<noteq> b"
proof -
  from segment_sub_edges_cases [OF assms(1)] obtain items cids lrs where
    i: "connectors r = Some items" and
    cc: "collect_connectors coords items = (cids, lrs)" and
    m: "(a, b, c, l) \<in> set (sub_edges (length_m r) spd (sort (zip lrs cids)))"
    by blast
  from assms(2) i cc have "distinct cids" by (simp add: row_cids_def)
  from distinct_snd_sort_zip [OF collect_connectors_length [OF cc] this] m
  show ?thesis by (rule sub_edges_distinct)
qed

text \<open>
  Claim C2, as amended. For a row with at least two connectors that resolve in the
  connector table and a walking speed other than zero, the builder inserts exactly the
  sub-edges \<open>segment_sub_edges\<close>, and their costs sum to the row's length times the
  distance between the least and the greatest resolved position, divided by the walking
  speed. The sum is the full length divided by the speed when the resolved positions
  reach from 0 to 1.
\<close>

theorem sub_edge_costs_sum:
  assumes "connectors r = Some items"
    and "collect_connectors coords items = (cids, lrs)"
    and "2 \<le> length cids" and "spd \<noteq> 0"
  shows "process_segment coords spd r st =
           Inr (fold add_sub_edge (segment_sub_edges coords spd r) st) \<and>
         cost_sum (segment_sub_edges coords spd r) =
           length_m r * (Max (set lrs) - Min (set lrs)) / spd \<and>
         (Min (set lrs) = 0 \<and> Max (set lrs) = 1 \<longrightarrow>
            cost_sum (segment_sub_edges coords spd r) = length_m r / spd)"
  using process_segment_not_skipped [OF assms] segment_sub_edges_cost [OF assms(1-3)]
  by simp

theorem sub_edge_costs_sum_witness:
  "process_segment [(''A'', 0, 0), (''B'', 0, 0), (''C'', 0, 0)] (3/2)
     \<lparr>connectors = Some [ItemDict (Some ''A'') None (Some 0), ItemDict (Some ''B'') None (Some (2/5)),
        ItemDict (Some ''C'') None (Some 1)], length_m = 200\<rparr>
     \<lparr>graph = fmempty, edge_count = 0, skipped_segments = 0\<rparr> =
   Inr (fold add_sub_edge
     (segment_sub_edges [(''A'', 0, 0), (''B'', 0, 0), (''C'', 0, 0)] (3/2)
       \<lparr>connectors = Some [ItemDict (Some ''A'') None (Some 0), ItemDict (Some ''B'') None (Some (2/5)),
        ItemDict (Some ''C'') None (Some 1)], length_m = 200\<rparr>)
     \<lparr>graph = fmempty, edge_count = 0, skipped_segments = 0\<rparr>) \<and>
   segment_sub_edges [(''A'', 0, 0), (''B'', 0, 0), (''C'', 0, 0)] (3/2)
       \<lparr>connectors = Some [ItemDict (Some ''A'') None (Some 0), ItemDict (Some ''B'') None (Some (2/5)),
        ItemDict (Some ''C'') None (Some 1)], length_m = 200\<rparr> =
     [(''A'', ''B'', 160/3, 80), (''B'', ''C'', 80, 120)] \<and>
   cost_sum (segment_sub_edges [(''A'', 0, 0), (''B'', 0, 0), (''C'', 0, 0)] (3/2)
       \<lparr>connectors = Some [ItemDict (Some ''A'') None (Some 0), ItemDict (Some ''B'') None (Some (2/5)),
        ItemDict (Some ''C'') None (Some 1)], length_m = 200\<rparr>) = 200 / (3/2)"
proof -
  let ?tbl = "[(''A'', 0, 0), (''B'', 0, 0), (''C'', 0::real, 0::real)]"
  let ?items = "[ItemDict (Some ''A'') None (Some 0), ItemDict (Some ''B'') None (Some (2/5)),
        ItemDict (Some ''C'') None (Some 1)]"
  let ?r = "\<lparr>connectors = Some ?items, length_m = 200\<rparr>"
  have c: "collect_connectors ?tbl ?items = ([''A'', ''B'', ''C''], [0, 2/5, 1])"
    by (simp add: in_table_def)
  have m: "Min (set [0, 2/5, 1::real]) = 0 \<and> Max (set [0, 2/5, 1::real]) = 1" by simp
  have e: "segment_sub_edges ?tbl (3/2) ?r = [(''A'', ''B'', 160/3, 80), (''B'', ''C'', 80, 120)]"
    by (simp add: segment_sub_edges_def in_table_def)
  from sub_edge_costs_sum [of ?r ?items ?tbl "[''A'', ''B'', ''C'']" "[0, 2/5, 1]" "3/2"
      "\<lparr>graph = fmempty, edge_count = 0, skipped_segments = 0\<rparr>"] c m e
  show ?thesis by simp
qed

text \<open>
  The sum is not the full length divided by the speed in general: a row of length 100
  with connectors at 0, 1/2 and 1 whose last connector is not in the connector table
  yields one sub-edge of cost 50 at speed 1.
\<close>

theorem sub_edge_costs_full_length_counterexample:
  "sorted [0, 1/2, 1::real] \<and>
   build_graph
     [\<lparr>connectors = Some [ItemDict (Some ''A'') None (Some 0), ItemDict (Some ''B'') None (Some (1/2)),
        ItemDict (Some ''C'') None (Some 1)], length_m = 100\<rparr>]
     [(''A'', 0, 0), (''B'', 0, 0)] 1 =
   Inr \<lparr>graph = fmupd ''B'' [(''A'', 50, 50)] (fmupd ''A'' [(''B'', 50, 50)] fmempty),
        edge_count = 1, skipped_segments = 0\<rparr> \<and>
   cost_sum (segment_sub_edges [(''A'', 0, 0), (''B'', 0, 0)] 1
     \<lparr>connectors = Some [ItemDict (Some ''A'') None (Some 0), ItemDict (Some ''B'') None (Some (1/2)),
        ItemDict (Some ''C'') None (Some 1)], length_m = 100\<rparr>) = 50 \<and>
   length_m \<lparr>connectors = Some [ItemDict (Some ''A'') None (Some 0), ItemDict (Some ''B'') None (Some (1/2)),
        ItemDict (Some ''C'') None (Some 1)], length_m = 100\<rparr> / 1 = (100::real)"
  by (simp add: build_graph_def process_segment_def segment_sub_edges_def in_table_def
      graph_append_def adj_def cost_sum_def)

text \<open>
  Claim C4. In a graph the builder returns, every adjacency entry \<open>(b, cost, len)\<close> of
  \<open>a\<close> has its mirror \<open>(a, cost, len)\<close> among the entries of \<open>b\<close>.
\<close>

theorem build_graph_adjacency_symmetric:
  "build_graph segments_df connector_coords walk_speed_ms = Inr st \<Longrightarrow>
   (b, cost, len) \<in> set (adj (graph st) a) \<Longrightarrow>
   (a, cost, len) \<in> set (adj (graph st) b)"
  by (rule build_graph_adj_symmetric)

theorem build_graph_adjacency_symmetric_witness:
  "build_graph
     [\<lparr>connectors = Some [ItemDict (Some ''A'') None (Some 0), ItemDict (Some ''B'') None (Some 1)],
        length_m = 100\<rparr>]
     [(''A'', 0, 0), (''B'', 0, 0)] (3/2) =
   Inr \<lparr>graph = fmupd ''B'' [(''A'', 200/3, 100)] (fmupd ''A'' [(''B'', 200/3, 100)] fmempty),
        edge_count = 1, skipped_segments = 0\<rparr> \<and>
   (''B'', 200/3, 100) \<in> set (adj (fmupd ''B'' [(''A'', 200/3, 100)]
       (fmupd ''A'' [(''B'', 200/3, 100)] fmempty)) ''A'') \<and>
   (''A'', 200/3, 100) \<in> set (adj (fmupd ''B'' [(''A'', 200/3, 100)]
       (fmupd ''A'' [(''B'', 200/3, 100)] fmempty)) ''B'')"
proof -
  let ?g = "fmupd ''B'' [(''A'', 200/3, 100::real)] (fmupd ''A'' [(''B'', 200/3::real, 100)] fmempty)"
  have b: "build_graph
     [\<lparr>connectors = Some [ItemDict (Some ''A'') None (Some 0), ItemDict (Some ''B'') None (Some 1)],
        length_m = 100\<rparr>]
     [(''A'', 0, 0), (''B'', 0, 0)] (3/2) =
     Inr \<lparr>graph = ?g, edge_count = 1, skipped_segments = 0\<rparr>"
    by (simp add: build_graph_def process_segment_def in_table_def graph_append_def adj_def Let_def)
  have m: "(''B'', 200/3, 100) \<in> set (adj (graph \<lparr>graph = ?g, edge_count = 1, skipped_segments = 0\<rparr>) ''A'')"
    by (simp add: adj_def)
  from build_graph_adjacency_symmetric [OF b m] b m show ?thesis by simp
qed

text \<open>
  Claim C3, as amended. A graph the builder returns is symmetric; every entry has a
  strictly positive cost when the walking speed and every row's length are strictly
  positive; and no connector is adjacent to itself when no row lists a resolved connector
  identifier twice.
\<close>

theorem build_graph_invariant:
  assumes "build_graph segments_df connector_coords walk_speed_ms = Inr st"
  shows "(\<forall>a b c l. (b, c, l) \<in> set (adj (graph st) a) \<longrightarrow> (a, c, l) \<in> set (adj (graph st) b)) \<and>
         (0 < walk_speed_ms \<and> (\<forall>r\<in>set segments_df. 0 < length_m r) \<longrightarrow>
            (\<forall>a b c l. (b, c, l) \<in> set (adj (graph st) a) \<longrightarrow> 0 < c)) \<and>
         ((\<forall>r\<in>set segments_df. distinct (row_cids connector_coords r)) \<longrightarrow>
            (\<forall>a c l. (a, c, l) \<notin> set (adj (graph st) a)))"
proof (intro conjI impI allI)
  fix a b c l
  assume "(b, c, l) \<in> set (adj (graph st) a)"
  with assms show "(a, c, l) \<in> set (adj (graph st) b)" by (rule build_graph_adj_symmetric)
next
  fix a b c l
  assume pos: "0 < walk_speed_ms \<and> (\<forall>r\<in>set segments_df. 0 < length_m r)"
    and m: "(b, c, l) \<in> set (adj (graph st) a)"
  from build_graph_entry_origin [OF assms m] obtain r where
    "r \<in> set segments_df"
    "(a, b, c, l) \<in> set (segment_sub_edges connector_coords walk_speed_ms r) \<or>
     (b, a, c, l) \<in> set (segment_sub_edges connector_coords walk_speed_ms r)"
    by blast
  with pos show "0 < c" by (auto dest: segment_sub_edges_positive)
next
  fix a c l
  assume d: "\<forall>r\<in>set segments_df. distinct (row_cids connector_coords r)"
  show "(a, c, l) \<notin> set (adj (graph st) a)"
  proof
    assume m: "(a, c, l) \<in> set (adj (graph st) a)"
    from build_graph_entry_origin [OF assms m] obtain r where
      "r \<in> set segments_df"
      "(a, a, c, l) \<in> set (segment_sub_edges connector_coords walk_speed_ms r)"
      by blast
    with d show False by (auto dest: segment_sub_edges_no_loop)
  qed
qed

theorem build_graph_invariant_witness:
  "build_graph
     [\<lparr>connectors = Some [ItemDict (Some ''A'') None (Some 0), ItemDict (Some ''B'') None (Some (2/5)),
        ItemDict (Some ''C'') None (Some 1)], length_m = 200\<rparr>]
     [(''A'', 0, 0), (''B'', 0, 0), (''C'', 0, 0)] 1 =
   Inr \<lparr>graph = fmupd ''C'' [(''B'', 120, 120)]
          (fmupd ''B'' [(''A'', 80, 80), (''C'', 120, 120)] (fmupd ''A'' [(''B'', 80, 80)] fmempty)),
        edge_count = 2, skipped_segments = 0\<rparr> \<and>
   (0::real) < 1 \<and> (0::real) < 200 \<and>
   distinct (row_cids [(''A'', 0, 0), (''B'', 0, 0), (''C'', 0, 0)]
      \<lparr>connectors = Some [ItemDict (Some ''A'') None (Some 0), ItemDict (Some ''B'') None (Some (2/5)),
        ItemDict (Some ''C'') None (Some 1)], length_m = 200\<rparr>) \<and>
   (''B'', 120, 120) \<in> set (adj (fmupd ''C'' [(''B'', 120, 120)]
          (fmupd ''B'' [(''A'', 80, 80), (''C'', 120, 120)] (fmupd ''A'' [(''B'', 80, 80)] fmempty))) ''C'') \<and>
   (''C'', 120, 120) \<in> set (adj (fmupd ''C'' [(''B'', 120, 120)]
          (fmupd ''B'' [(''A'', 80, 80), (''C'', 120, 120)] (fmupd ''A'' [(''B'', 80, 80)] fmempty))) ''B'') \<and>
   (''C'', 120, 120) \<notin> set (adj (fmupd ''C'' [(''B'', 120, 120)]
          (fmupd ''B'' [(''A'', 80, 80), (''C'', 120, 120)] (fmupd ''A'' [(''B'', 80, 80)] fmempty))) ''C'')"
proof -
  let ?g = "fmupd ''C'' [(''B'', 120, 120::real)]
          (fmupd ''B'' [(''A'', 80, 80), (''C'', 120::real, 120)] (fmupd ''A'' [(''B'', 80, 80)] fmempty))"
  let ?r = "\<lparr>connectors = Some [ItemDict (Some ''A'') None (Some 0), ItemDict (Some ''B'') None (Some (2/5)),
        ItemDict (Some ''C'') None (Some 1)], length_m = 200\<rparr>"
  let ?tbl = "[(''A'', 0, 0), (''B'', 0, 0), (''C'', 0::real, 0::real)]"
  have b: "build_graph [?r] ?tbl 1 = Inr \<lparr>graph = ?g, edge_count = 2, skipped_segments = 0\<rparr>"
    by (simp add: build_graph_def process_segment_def in_table_def graph_append_def adj_def Let_def)
  have d: "distinct (row_cids ?tbl ?r)" by (simp add: row_cids_def in_table_def)
  have m: "(''B'', 120, 120) \<in> set (adj ?g ''C'')" by (simp add: adj_def)
  from build_graph_invariant [OF b] b d m show ?thesis by simp
qed

text \<open>
  Without those conditions the claim fails: a row that lists connector \<open>A\<close> at
  positions 0 and 1 gives \<open>A\<close> an entry to itself, and a row of length 0 gives entries of
  cost 0.
\<close>

theorem build_graph_self_loop_counterexample:
  "build_graph
     [\<lparr>connectors = Some [ItemDict (Some ''A'') None (Some 0), ItemDict (Some ''A'') None (Some 1)],
        length_m = 100\<rparr>]
     [(''A'', 0, 0)] 1 =
   Inr \<lparr>graph = fmupd ''A'' [(''A'', 100, 100), (''A'', 100, 100)] fmempty,
        edge_count = 1, skipped_segments = 0\<rparr> \<and>
   (''A'', 100, 100) \<in> set (adj (fmupd ''A'' [(''A'', 100, 100), (''A'', 100, 100)] fmempty) ''A'') \<and>
   build_graph
     [\<lparr>connectors = Some [ItemDict (Some ''A'') None (Some 0), ItemDict (Some ''B'') None (Some 1)],
        length_m = 0\<rparr>]
     [(''A'', 0, 0), (''B'', 0, 0)] 1 =
   Inr \<lparr>graph = fmupd ''B'' [(''A'', 0, 0)] (fmupd ''A'' [(''B'', 0, 0)] fmempty),
        edge_count = 1, skipped_segments = 0\<rparr> \<and>
   (''B'', 0, 0) \<in> set (adj (fmupd ''B'' [(''A'', 0, 0)] (fmupd ''A'' [(''B'', 0, 0)] fmempty)) ''A'')"
  by (simp add: build_graph_def process_segment_def in_table_def graph_append_def adj_def)

section \<open>The origin locator\<close>

text \<open>
  Over the reals \<open>_a\<close> lies between 0 and 1, and the distance computed from it is the
  great-circle distance.
\<close>

lemma sin_half_sq:
  fixes x :: real
  shows "(sin (x / 2))\<^sup>2 = (1 - cos x) / 2"
  using cos_double_sin [of "x / 2"] by simp

lemma cos_prod:
  fixes x y :: real
  shows "cos x * cos y = (cos (x - y) + cos (x + y)) / 2"
  by (simp add: cos_add cos_diff)

lemma haversine_a_bounds:
  "0 \<le> haversine_a lat1 lng1 lat2 lng2 \<and> haversine_a lat1 lng1 lat2 lng2 \<le> 1"
proof -
  define r1 where "r1 = radians lat1"
  define r2 where "r2 = radians lat2"
  define t where "t = (sin (radians (lng2 - lng1) / 2))\<^sup>2"
  define C1 where "C1 = cos (r2 - r1)"
  define C2 where "C2 = cos (r1 + r2)"
  have dl: "radians (lat2 - lat1) = r2 - r1"
    by (simp add: radians_def r1_def r2_def algebra_simps diff_divide_distrib)
  have t: "0 \<le> t" "t \<le> 1"
    unfolding t_def using abs_sin_le_one [of "radians (lng2 - lng1) / 2"]
    by (simp_all add: abs_square_le_1)
  have c1: "- 1 \<le> C1" "C1 \<le> 1" and c2: "- 1 \<le> C2" "C2 \<le> 1"
    by (simp_all add: C1_def C2_def)
  have cp: "cos r1 * cos r2 = (C1 + C2) / 2"
    unfolding C1_def C2_def using cos_prod [of r1 r2] by (simp add: cos_diff cos_add)
  have a: "haversine_a lat1 lng1 lat2 lng2 = (1 - C1) / 2 + (C1 + C2) / 2 * t"
    unfolding haversine_a_def Let_def dl sin_half_sq [of "r2 - r1"]
    by (simp add: cp r1_def [symmetric] r2_def [symmetric] C1_def t_def)
  have e: "(1 - C1) / 2 + (C1 + C2) / 2 * t = 1 / 2 - (1 - t) * C1 / 2 + t * C2 / 2"
    by (simp add: algebra_simps add_divide_distrib diff_divide_distrib)
  have u1: "(1 - t) * C1 \<le> 1 - t" using t c1 by (simp add: mult_left_le)
  have l1: "- (1 - t) \<le> (1 - t) * C1"
    using mult_left_mono [OF c1(1), of "1 - t"] t by simp
  have u2: "t * C2 \<le> t" using t c2 by (simp add: mult_left_le)
  have l2: "- t \<le> t * C2" using mult_left_mono [OF c2(1), of t] t by simp
  from u1 l1 u2 l2 show ?thesis unfolding a e by auto
qed

lemma row_in_range_exact: "row_in_range haversine_a study_lat study_lng row"
  using haversine_a_bounds by (cases row) (simp add: row_in_range_def)

lemma haversine_m_row_dist:
  "row_in_range fa study_lat study_lng (c, la, lo) \<Longrightarrow>
   haversine_m fa study_lat study_lng la lo = Inr (row_dist fa study_lat study_lng (c, la, lo))"
  by (simp add: haversine_m_def py_sqrt_def row_dist_def row_in_range_def Let_def)

lemma haversine_m_out_of_range:
  "\<not> row_in_range fa study_lat study_lng (c, la, lo) \<Longrightarrow>
   haversine_m fa study_lat study_lng la lo = Inl ValueError"
  by (auto simp: haversine_m_def py_sqrt_def row_in_range_def Let_def)

lemma one_minus_two_haversine_a:
  "1 - 2 * haversine_a lat1 lng1 lat2 lng2 =
     sin (lat1 * pi / 180) * sin (lat2 * pi / 180) +
     cos (lat1 * pi / 180) * cos (lat2 * pi / 180) * cos ((lng2 - lng1) * pi / 180)"
proof -
  let ?p1 = "lat1 * pi / 180" and ?p2 = "lat2 * pi / 180" and ?dl = "(lng2 - lng1) * pi / 180"
  have dlat: "radians (lat2 - lat1) = ?p2 - ?p1"
    by (simp add: radians_def algebra_simps diff_divide_distrib)
  have "haversine_a lat1 lng1 lat2 lng2 =
      (1 - cos (?p2 - ?p1)) / 2 + cos ?p1 * cos ?p2 * ((1 - cos ?dl) / 2)"
    unfolding haversine_a_def Let_def dlat sin_half_sq
    by (simp add: radians_def)
  moreover have "A = (1 - X) / 2 + P * ((1 - D) / 2) \<Longrightarrow> 1 - 2 * A = X - P * (1 - D)"
    for A X P D :: real
    by (simp add: field_simps)
  ultimately have "1 - 2 * haversine_a lat1 lng1 lat2 lng2 =
      cos (?p2 - ?p1) - cos ?p1 * cos ?p2 * (1 - cos ?dl)"
    by blast
  also have "\<dots> = sin ?p1 * sin ?p2 + cos ?p1 * cos ?p2 * cos ?dl"
    by (simp add: cos_diff algebra_simps)
  finally show ?thesis .
qed

lemma two_atan2_arccos:
  assumes "0 \<le> a" "a \<le> 1"
  shows "2 * atan2 (sqrt a) (sqrt (1 - a)) = arccos (1 - 2 * a)"
proof (cases "a = 1")
  case True
  then show ?thesis by (simp add: atan2_def)
next
  case False
  with assms have lt: "a < 1" by simp
  define z where "z = sqrt a / sqrt (1 - a)"
  define t where "t = arctan z"
  have z0: "0 \<le> z" using assms lt by (simp add: z_def)
  have at: "atan2 (sqrt a) (sqrt (1 - a)) = t"
    using lt by (simp add: atan2_def t_def z_def)
  have t0: "0 \<le> t" using z0 by (simp add: t_def zero_le_arctan_iff)
  have t1: "t < pi / 2" unfolding t_def by (rule arctan_ubound)
  have z2: "z\<^sup>2 = a / (1 - a)"
    using assms lt by (simp add: z_def power_divide)
  have "1 + z\<^sup>2 = 1 / (1 - a)"
    unfolding z2 using lt by (simp add: field_simps)
  moreover have "(cos t)\<^sup>2 = 1 / (1 + z\<^sup>2)"
    unfolding t_def by (simp add: cos_arctan power_divide)
  ultimately have c2: "(cos t)\<^sup>2 = 1 - a" using lt by simp
  have "cos (2 * t) = 1 - 2 * a"
    by (simp add: cos_double_cos c2)
  moreover have "0 \<le> 2 * t" "2 * t \<le> pi" using t0 t1 by simp_all
  ultimately have "arccos (1 - 2 * a) = 2 * t" by (metis arccos_cos)
  with at show ?thesis by simp
qed

lemma haversine_m_exact:
  "haversine_m haversine_a lat1 lng1 lat2 lng2 = Inr (great_circle_m lat1 lng1 lat2 lng2)"
proof -
  let ?a = "haversine_a lat1 lng1 lat2 lng2"
  have b: "0 \<le> ?a" "?a \<le> 1" using haversine_a_bounds [of lat1 lng1 lat2 lng2] by simp_all
  have "haversine_m haversine_a lat1 lng1 lat2 lng2 =
        Inr (6371000 * (2 * atan2 (sqrt ?a) (sqrt (1 - ?a))))"
    using b by (simp add: haversine_m_def py_sqrt_def Let_def)
  also have "\<dots> = Inr (6371000 * arccos (1 - 2 * ?a))"
    by (simp only: two_atan2_arccos [OF b])
  also have "\<dots> = Inr (great_circle_m lat1 lng1 lat2 lng2)"
    by (simp only: one_minus_two_haversine_a great_circle_m_def)
  finally show ?thesis .
qed

lemma row_dist_exact:
  "row_dist haversine_a study_lat study_lng (c, la, lo) = great_circle_m study_lat study_lng la lo"
  using haversine_m_exact [of study_lat study_lng la lo]
    haversine_m_row_dist [of haversine_a study_lat study_lng c la lo, OF row_in_range_exact]
  by simp

lemma great_circle_row:
  "row_dist haversine_a study_lat study_lng r =
     great_circle_m study_lat study_lng (fst (snd r)) (snd (snd r))"
  by (cases r) (simp add: row_dist_exact)

text \<open>
  The loop keeps the first row of least distance as long as \<open>_a\<close> stays in range, and
  raises \<open>ValueError\<close> at the first row where it does not.
\<close>

lemma nearest_firstI:
  assumes "rows = ys @ (c, la, lo) # zs"
    and "d = row_dist fa study_lat study_lng (c, la, lo)"
    and "\<forall>r\<in>set ys. d < row_dist fa study_lat study_lng r"
    and "\<forall>r\<in>set zs. d \<le> row_dist fa study_lat study_lng r"
  shows "nearest_first fa study_lat study_lng rows (Some (c, d))"
  unfolding nearest_first_def option.case prod.case using assms by blast

lemma nearest_first_step:
  assumes "nearest_first fa study_lat study_lng pre best"
  shows "nearest_first fa study_lat study_lng (pre @ [(c, la, lo)])
           (case best of
              None \<Rightarrow> Some (c, row_dist fa study_lat study_lng (c, la, lo))
            | Some (origin_id, origin_dist) \<Rightarrow>
                if row_dist fa study_lat study_lng (c, la, lo) < origin_dist
                then Some (c, row_dist fa study_lat study_lng (c, la, lo)) else best)"
proof (cases best)
  case None
  with assms have "pre = []" by (simp add: nearest_first_def)
  then have "nearest_first fa study_lat study_lng (pre @ [(c, la, lo)])
      (Some (c, row_dist fa study_lat study_lng (c, la, lo)))"
    by (intro nearest_firstI [of _ "[]" c la lo "[]"]) simp_all
  with None show ?thesis by simp
next
  case (Some p)
  obtain oc od where p: "p = (oc, od)" by (cases p)
  from assms have "\<exists>ys zs la' lo'. pre = ys @ (oc, la', lo') # zs \<and>
    od = row_dist fa study_lat study_lng (oc, la', lo') \<and>
    (\<forall>r\<in>set ys. od < row_dist fa study_lat study_lng r) \<and>
    (\<forall>r\<in>set zs. od \<le> row_dist fa study_lat study_lng r)"
    unfolding nearest_first_def Some p option.case prod.case .
  then obtain ys zs la' lo' where
    rows: "pre = ys @ (oc, la', lo') # zs" and
    od: "od = row_dist fa study_lat study_lng (oc, la', lo')" and
    before: "\<forall>r\<in>set ys. od < row_dist fa study_lat study_lng r" and
    after: "\<forall>r\<in>set zs. od \<le> row_dist fa study_lat study_lng r"
    by blast
  let ?d = "row_dist fa study_lat study_lng (c, la, lo)"
  show ?thesis
  proof (cases "?d < od")
    case True
    have "\<forall>r\<in>set pre. ?d < row_dist fa study_lat study_lng r"
    proof
      fix r assume "r \<in> set pre"
      then consider "r \<in> set ys" | "r = (oc, la', lo')" | "r \<in> set zs"
        unfolding rows by auto
      then show "?d < row_dist fa study_lat study_lng r"
      proof cases
        case 1 with before True show ?thesis by fastforce
      next
        case 2 with od True show ?thesis by simp
      next
        case 3 with after True show ?thesis by fastforce
      qed
    qed
    then have "nearest_first fa study_lat study_lng (pre @ [(c, la, lo)]) (Some (c, ?d))"
      by (intro nearest_firstI [of _ pre c la lo "[]"]) simp_all
    with True Some p show ?thesis by simp
  next
    case False
    have "\<forall>r\<in>set (zs @ [(c, la, lo)]). od \<le> row_dist fa study_lat study_lng r"
      using after False by auto
    then have "nearest_first fa study_lat study_lng (pre @ [(c, la, lo)]) (Some (oc, od))"
      using od before
      by (intro nearest_firstI [of _ ys oc la' lo' "zs @ [(c, la, lo)]"]) (simp_all add: rows)
    with False Some p show ?thesis by simp
  qed
qed

lemma origin_loop_nearest:
  "nearest_first fa study_lat study_lng pre best \<Longrightarrow>
   \<forall>r\<in>set rest. row_in_range fa study_lat study_lng r \<Longrightarrow>
   \<exists>best'. origin_loop fa study_lat study_lng rest best = Inr best' \<and>
           nearest_first fa study_lat study_lng (pre @ rest) best'"
proof (induction rest arbitrary: pre best)
  case Nil
  then show ?case by simp
next
  case (Cons row rest)
  obtain c la lo where row: "row = (c, la, lo)" by (cases row)
  let ?best = "case best of
              None \<Rightarrow> Some (c, row_dist fa study_lat study_lng (c, la, lo))
            | Some (origin_id, origin_dist) \<Rightarrow>
                if row_dist fa study_lat study_lng (c, la, lo) < origin_dist
                then Some (c, row_dist fa study_lat study_lng (c, la, lo)) else best"
  from Cons.prems(2) have ir: "row_in_range fa study_lat study_lng (c, la, lo)"
    and rest: "\<forall>r\<in>set rest. row_in_range fa study_lat study_lng r"
    by (simp_all add: row)
  have step: "origin_loop fa study_lat study_lng (row # rest) best =
              origin_loop fa study_lat study_lng rest ?best"
    by (simp add: row haversine_m_row_dist [OF ir] split: option.splits)
  from Cons.IH [OF nearest_first_step [OF Cons.prems(1), of c la lo] rest]
  show ?case unfolding step by (simp add: row)
qed

lemma origin_loop_out_of_range:
  "\<exists>r\<in>set rest. \<not> row_in_range fa study_lat study_lng r \<Longrightarrow>
   origin_loop fa study_lat study_lng rest best = Inl ValueError"
proof (induction rest arbitrary: best)
  case Nil
  then show ?case by simp
next
  case (Cons row rest)
  obtain c la lo where row: "row = (c, la, lo)" by (cases row)
  show ?case
  proof (cases "row_in_range fa study_lat study_lng (c, la, lo)")
    case True
    with Cons.prems row have "\<exists>r\<in>set rest. \<not> row_in_range fa study_lat study_lng r"
      by auto
    from Cons.IH [OF this] show ?thesis
      by (simp add: row haversine_m_row_dist [OF True] split: option.splits)
  next
    case False
    then show ?thesis by (simp add: row haversine_m_out_of_range)
  qed
qed

lemma origin_loop_from_None:
  "\<forall>r\<in>set rows. row_in_range fa study_lat study_lng r \<Longrightarrow>
   \<exists>best. origin_loop fa study_lat study_lng rows None = Inr best \<and>
          nearest_first fa study_lat study_lng rows best"
  using origin_loop_nearest [of fa study_lat study_lng "[]" None rows]
  by (simp add: nearest_first_def)

text \<open>
  The locator fails exactly when the table is empty or \<open>_a\<close> is out of range at some row.
  With the real value of \<open>_a\<close> it fails exactly when the table is empty, and otherwise
  returns a row's identifier, the coordinates stored for it and its great-circle distance,
  which is strictly less than that of every earlier row and at most that of every later
  row.
\<close>

lemma find_origin_empty: "find_origin fa study_lat study_lng [] = Inl KeyError"
  by (simp add: find_origin_def)

lemma find_origin_out_of_range:
  "\<exists>r\<in>set coords. \<not> row_in_range fa study_lat study_lng r \<Longrightarrow>
   find_origin fa study_lat study_lng coords = Inl ValueError"
  by (simp add: find_origin_def origin_loop_out_of_range)

lemma find_origin_nonempty:
  assumes "coords \<noteq> []" and ir: "\<forall>r\<in>set coords. row_in_range fa study_lat study_lng r"
  shows "\<exists>ys zs c la lo la' lo'. coords = ys @ (c, la, lo) # zs \<and>
           map_of coords c = Some (la', lo') \<and>
           find_origin fa study_lat study_lng coords =
             Inr (c, la', lo', row_dist fa study_lat study_lng (c, la, lo)) \<and>
           (\<forall>r\<in>set ys. row_dist fa study_lat study_lng (c, la, lo) < row_dist fa study_lat study_lng r) \<and>
           (\<forall>r\<in>set zs. row_dist fa study_lat study_lng (c, la, lo) \<le> row_dist fa study_lat study_lng r)"
proof -
  from origin_loop_from_None [OF ir] obtain best where
    l: "origin_loop fa study_lat study_lng coords None = Inr best" and
    n: "nearest_first fa study_lat study_lng coords best" by blast
  from n assms(1) obtain c d where b: "best = Some (c, d)"
    by (cases best) (auto simp: nearest_first_def)
  from n have "\<exists>ys zs la lo. coords = ys @ (c, la, lo) # zs \<and>
             d = row_dist fa study_lat study_lng (c, la, lo) \<and>
             (\<forall>r\<in>set ys. d < row_dist fa study_lat study_lng r) \<and>
             (\<forall>r\<in>set zs. d \<le> row_dist fa study_lat study_lng r)"
    unfolding nearest_first_def b option.case prod.case .
  then obtain ys zs la lo where
    rows: "coords = ys @ (c, la, lo) # zs" and
    d: "d = row_dist fa study_lat study_lng (c, la, lo)" and
    before: "\<forall>r\<in>set ys. d < row_dist fa study_lat study_lng r" and
    after: "\<forall>r\<in>set zs. d \<le> row_dist fa study_lat study_lng r"
    by blast
  have "c \<in> fst ` set coords" unfolding rows by force
  then obtain la' lo' where m: "map_of coords c = Some (la', lo')"
    by (metis map_of_eq_None_iff not_Some_eq prod.exhaust)
  have "find_origin fa study_lat study_lng coords = Inr (c, la', lo', d)"
    by (simp add: find_origin_def l b m)
  with rows d before after m show ?thesis by blast
qed

lemma find_origin_fails_iff:
  "(\<exists>e. find_origin fa study_lat study_lng coords = Inl e) \<longleftrightarrow>
     coords = [] \<or> (\<exists>r\<in>set coords. \<not> row_in_range fa study_lat study_lng r)"
proof (cases "coords = [] \<or> (\<exists>r\<in>set coords. \<not> row_in_range fa study_lat study_lng r)")
  case True
  then show ?thesis
    using find_origin_empty [of fa study_lat study_lng]
      find_origin_out_of_range [of coords fa study_lat study_lng] by auto
next
  case False
  then have "coords \<noteq> []" "\<forall>r\<in>set coords. row_in_range fa study_lat study_lng r" by auto
  from find_origin_nonempty [OF this] obtain x where
    "find_origin fa study_lat study_lng coords = Inr x" by blast
  with False show ?thesis by simp
qed

lemma find_origin_exact:
  "((\<exists>e. find_origin haversine_a study_lat study_lng coords = Inl e) \<longleftrightarrow> coords = []) \<and>
   (coords \<noteq> [] \<longrightarrow>
      (\<exists>ys zs c la lo la' lo'. coords = ys @ (c, la, lo) # zs \<and>
           map_of coords c = Some (la', lo') \<and>
           find_origin haversine_a study_lat study_lng coords =
             Inr (c, la', lo', great_circle_m study_lat study_lng la lo) \<and>
           (\<forall>r\<in>set ys. great_circle_m study_lat study_lng la lo <
              great_circle_m study_lat study_lng (fst (snd r)) (snd (snd r))) \<and>
           (\<forall>r\<in>set zs. great_circle_m study_lat study_lng la lo \<le>
              great_circle_m study_lat study_lng (fst (snd r)) (snd (snd r)))))"
proof -
  have ir: "\<forall>r\<in>set coords. row_in_range haversine_a study_lat study_lng r"
    by (simp add: row_in_range_exact)
  have 1: "(\<exists>e. find_origin haversine_a study_lat study_lng coords = Inl e) \<longleftrightarrow> coords = []"
    unfolding find_origin_fails_iff using ir by simp
  have 2: "\<exists>ys zs c la lo la' lo'. coords = ys @ (c, la, lo) # zs \<and>
           map_of coords c = Some (la', lo') \<and>
           find_origin haversine_a study_lat study_lng coords =
             Inr (c, la', lo', great_circle_m study_lat study_lng la lo) \<and>
           (\<forall>r\<in>set ys. great_circle_m study_lat study_lng la lo <
              great_circle_m study_lat study_lng (fst (snd r)) (snd (snd r))) \<and>
           (\<forall>r\<in>set zs. great_circle_m study_lat study_lng la lo \<le>
              great_circle_m study_lat study_lng (fst (snd r)) (snd (snd r)))"
    if "coords \<noteq> []"
    using find_origin_nonempty [OF that ir]
    unfolding great_circle_row row_dist_exact by simp
  from 1 2 show ?thesis by blast
qed



section \<open>The shortest-path search\<close>

lemma nonneg_costsD: "nonneg_costs g \<Longrightarrow> (v, w, l) \<in> set (adj g u) \<Longrightarrow> 0 \<le> w"
proof -
  assume n: "nonneg_costs g" and m: "(v, w, l) \<in> set (adj g u)"
  have "u \<in> fmdom' g"
  proof (rule ccontr)
    assume "u \<notin> fmdom' g"
    then have "adj g u = []" by (rule adj_not_dom)
    with m show False by simp
  qed
  with n m show ?thesis unfolding nonneg_costs_def by fastforce
qed

lemma walk_nonneg: "walk g s c v \<Longrightarrow> nonneg_costs g \<Longrightarrow> 0 \<le> c"
  by (induction rule: walk.induct) (auto dest: nonneg_costsD)

lemma set_push_neighbours:
  "set (push_neighbours vis c b es q) =
     set q \<union> {(c + w, v) | v w l. (v, w, l) \<in> set es \<and> v \<notin> vis \<and> c + w \<le> b}"
  by (induction vis c b es q rule: push_neighbours.induct)
     (auto simp: heappush_def Let_def)

lemma heappop_props:
  assumes "q \<noteq> []" "heappop q = (m, q')"
  shows "m \<in> set q" "\<forall>e\<in>set q. m \<le> e" "set q' \<subseteq> set q" "set q \<subseteq> insert m (set q')"
proof -
  from assms have m: "m = Min (set q)" and q': "q' = remove1 m q"
    by (auto simp: heappop_def Let_def)
  from assms(1) show "m \<in> set q" unfolding m by (intro Min_in) simp_all
  show "\<forall>e\<in>set q. m \<le> e" unfolding m by simp
  show "set q' \<subseteq> set q" unfolding q' by (rule set_remove1_subset)
  show "set q \<subseteq> insert m (set q')" unfolding q'
    by (metis insert_iff in_set_remove1 subsetI)
qed

lemma search_inv_cover:
  assumes inv: "search_inv g s0 b s" and nn: "nonneg_costs g" and w: "walk g s0 c' v"
  shows "(\<exists>d. reachable s v = Some d \<and> d \<le> c') \<or> (\<exists>k x. (k, x) \<in> set (pq s) \<and> k \<le> c') \<or> b < c'"
  using w
proof (induction rule: walk.induct)
  case walk_refl
  from inv have "s0 \<in> visited s \<or> (0, s0) \<in> set (pq s)" unfolding search_inv_def by blast
  then show ?case
  proof
    assume "s0 \<in> visited s"
    with inv obtain d where d: "reachable s s0 = Some d" unfolding search_inv_def by blast
    with inv have "min_cost g s0 s0 d" unfolding search_inv_def by blast
    then have "d \<le> 0" using walk.walk_refl [of g s0] by (simp add: min_cost_def)
    with d show ?thesis by simp
  next
    assume "(0, s0) \<in> set (pq s)"
    then show ?thesis by blast
  qed
next
  case (walk_step c u v w l)
  have w0: "0 \<le> w" using nn walk_step.hyps(2) by (rule nonneg_costsD)
  from walk_step.IH consider
    d where "reachable s u = Some d" "d \<le> c"
    | k x where "(k, x) \<in> set (pq s)" "k \<le> c"
    | "b < c"
    by blast
  then show ?case
  proof cases
    case 1
    show ?thesis
    proof (cases "d + w \<le> b")
      case True
      with inv 1(1) walk_step.hyps(2) have "v \<in> visited s \<or> (d + w, v) \<in> set (pq s)"
        unfolding search_inv_def by blast
      then show ?thesis
      proof
        assume "v \<in> visited s"
        with inv obtain dv where dv: "reachable s v = Some dv" unfolding search_inv_def by blast
        with inv have "min_cost g s0 v dv" unfolding search_inv_def by blast
        moreover have "walk g s0 (c + w) v"
          using walk_step.hyps(1,2) by (rule walk.walk_step)
        ultimately have "dv \<le> c + w" by (simp add: min_cost_def)
        with dv show ?thesis by simp
      next
        assume "(d + w, v) \<in> set (pq s)"
        moreover have "d + w \<le> c + w" using 1(2) by simp
        ultimately show ?thesis by blast
      qed
    next
      case False
      with 1(2) show ?thesis by simp
    qed
  next
    case 2
    with w0 have "k \<le> c + w" by simp
    with 2(1) show ?thesis by blast
  next
    case 3
    with w0 show ?thesis by simp
  qed
qed

lemma fst_le_of_prod_le:
  fixes c k :: real and n x :: connector_id
  shows "(c, n) \<le> (k, x) \<Longrightarrow> c \<le> k"
  by auto

lemma search_inv_init: "0 \<le> b \<Longrightarrow> search_inv g s0 b (dijkstra_init s0)"
  by (auto simp: search_inv_def dijkstra_init_def intro: walk.walk_refl)

lemma search_inv_step:
  assumes inv: "search_inv g s0 b s" and nn: "nonneg_costs g" and ne: "pq s \<noteq> []"
  shows "search_inv g s0 b (dijkstra_step g b s)"
proof -
  obtain c n q where hp: "heappop (pq s) = ((c, n), q)"
    by (metis prod.exhaust)
  note hpp = heappop_props [OF ne hp]
  from inv have
    a: "\<And>c n. (c, n) \<in> set (pq s) \<Longrightarrow> walk g s0 c n \<and> c \<le> b" and
    r: "\<And>v c. reachable s v = Some c \<Longrightarrow> min_cost g s0 v c \<and> c \<le> b" and
    vd: "visited s = dom (reachable s)" and
    d: "\<And>u c v w l. reachable s u = Some c \<Longrightarrow> (v, w, l) \<in> set (adj g u) \<Longrightarrow> c + w \<le> b \<Longrightarrow>
          v \<in> visited s \<or> (c + w, v) \<in> set (pq s)" and
    e: "s0 \<in> visited s \<or> (0, s0) \<in> set (pq s)"
    unfolding search_inv_def by blast+
  have wc: "walk g s0 c n" and cb: "c \<le> b" using a [OF hpp(1)] by simp_all
  have stay: "\<And>k x. (k, x) \<in> set (pq s) \<Longrightarrow> (k, x) \<in> set q \<or> x = n"
    using hpp(4) by auto
  show ?thesis
  proof (cases "n \<in> visited s")
    case True
    then have s': "dijkstra_step g b s = s\<lparr>pq := q\<rparr>"
      using hp by (simp add: dijkstra_step_def)
    show ?thesis
      unfolding s' search_inv_def
    proof (intro conjI allI impI)
      fix k x assume "(k, x) \<in> set (pq (s\<lparr>pq := q\<rparr>))"
      then have "(k, x) \<in> set (pq s)" using hpp(3) by auto
      then show "walk g s0 k x" "k \<le> b" using a by simp_all
    next
      fix v k assume "reachable (s\<lparr>pq := q\<rparr>) v = Some k"
      then show "min_cost g s0 v k" "k \<le> b" using r by simp_all
    next
      show "visited (s\<lparr>pq := q\<rparr>) = dom (reachable (s\<lparr>pq := q\<rparr>))" using vd by simp
    next
      fix u k v w l
      assume "reachable (s\<lparr>pq := q\<rparr>) u = Some k" "(v, w, l) \<in> set (adj g u)" "k + w \<le> b"
      then have "v \<in> visited s \<or> (k + w, v) \<in> set (pq s)" using d by simp
      then show "v \<in> visited (s\<lparr>pq := q\<rparr>) \<or> (k + w, v) \<in> set (pq (s\<lparr>pq := q\<rparr>))"
        using stay True by auto
    next
      show "s0 \<in> visited (s\<lparr>pq := q\<rparr>) \<or> (0, s0) \<in> set (pq (s\<lparr>pq := q\<rparr>))"
        using e stay True by auto
    qed
  next
    case False
    define q' where "q' = push_neighbours (insert n (visited s)) c b (adj g n) q"
    define s' where "s' = s\<lparr>pq := q', reachable := (reachable s)(n \<mapsto> c), visited := insert n (visited s)\<rparr>"
    have step: "dijkstra_step g b s = s'"
      using hp False cb by (simp add: dijkstra_step_def Let_def s'_def q'_def)
    have setq': "set q' = set q \<union> {(c + w, v) | v w l. (v, w, l) \<in> set (adj g n) \<and> v \<notin> insert n (visited s) \<and> c + w \<le> b}"
      unfolding q'_def by (rule set_push_neighbours)
    have pq': "pq s' = q'" and re': "reachable s' = (reachable s)(n \<mapsto> c)"
      and vi': "visited s' = insert n (visited s)"
      by (simp_all add: s'_def)
    have mc: "min_cost g s0 n c"
      unfolding min_cost_def
    proof (intro conjI allI impI)
      show "walk g s0 c n" by (rule wc)
    next
      fix c' assume "walk g s0 c' n"
      from search_inv_cover [OF inv nn this] consider
        dd where "reachable s n = Some dd"
        | k x where "(k, x) \<in> set (pq s)" "k \<le> c'"
        | "b < c'" by blast
      then show "c \<le> c'"
      proof cases
        case 1
        with False vd show ?thesis by auto
      next
        case 2
        from hpp(2) 2(1) have "(c, n) \<le> (k, x)" by blast
        then have "c \<le> k" by (rule fst_le_of_prod_le)
        with 2(2) show ?thesis by simp
      next
        case 3
        with cb show ?thesis by simp
      qed
    qed
    show ?thesis
      unfolding step search_inv_def pq' re' vi'
    proof (intro conjI allI impI)
      fix k x assume "(k, x) \<in> set q'"
      then consider "(k, x) \<in> set q"
        | w l where "(x, w, l) \<in> set (adj g n)" "k = c + w" "c + w \<le> b"
        unfolding setq' by blast
      then have "walk g s0 k x \<and> k \<le> b"
      proof cases
        case 1
        with hpp(3) a show ?thesis by blast
      next
        case 2
        from walk.walk_step [OF wc 2(1)] 2(2,3) show ?thesis by simp
      qed
      then show "walk g s0 k x" "k \<le> b" by simp_all
    next
      fix v k assume "((reachable s)(n \<mapsto> c)) v = Some k"
      then have "(v = n \<and> k = c) \<or> reachable s v = Some k" by (auto split: if_splits)
      then have "min_cost g s0 v k \<and> k \<le> b" using mc cb r by auto
      then show "min_cost g s0 v k" "k \<le> b" by simp_all
    next
      show "insert n (visited s) = dom ((reachable s)(n \<mapsto> c))" using vd by simp
    next
      fix u k v w l
      assume ru: "((reachable s)(n \<mapsto> c)) u = Some k" and ed: "(v, w, l) \<in> set (adj g u)"
        and kb: "k + w \<le> b"
      show "v \<in> insert n (visited s) \<or> (k + w, v) \<in> set q'"
      proof (cases "u = n")
        case True
        with ru have "k = c" by simp
        with True ed kb show ?thesis unfolding setq' by blast
      next
        case False
        with ru have "reachable s u = Some k" by simp
        from d [OF this ed kb] stay show ?thesis unfolding setq' by blast
      qed
    next
      show "s0 \<in> insert n (visited s) \<or> (0, s0) \<in> set q'"
        using e stay unfolding setq' by blast
    qed
  qed
qed

lemma dijkstra_loop_inv:
  "(\<forall>s. P s \<longrightarrow> pq s \<noteq> [] \<longrightarrow> P (dijkstra_step g b s)) \<Longrightarrow> P s \<Longrightarrow>
   P (dijkstra_loop g b s) \<and> pq (dijkstra_loop g b s) = []"
proof (induction g b s rule: dijkstra_loop.induct)
  case (1 g budget s)
  show ?case
  proof (cases "pq s = []")
    case True
    with 1 show ?thesis by (subst (1 2) dijkstra_loop.simps) simp
  next
    case False
    with 1 have "P (dijkstra_step g budget s)" by blast
    with "1.IH" [OF False "1.prems"(1)] False show ?thesis
      by (subst (1 2) dijkstra_loop.simps) simp
  qed
qed

lemma min_cost_unique: "min_cost g s v c \<Longrightarrow> min_cost g s v c' \<Longrightarrow> c = c'"
  by (auto simp: min_cost_def intro: antisym)

lemma run_dijkstra_negative_budget:
  assumes "b < 0"
  shows "reachable (run_dijkstra g s0 b) = Map.empty"
proof -
  have hp: "heappop [(0::real, s0)] = ((0, s0), [])" by (simp add: heappop_def)
  have "dijkstra_step g b (dijkstra_init s0) = \<lparr>pq = [], reachable = Map.empty, visited = {s0}\<rparr>"
    using assms by (simp add: dijkstra_step_def dijkstra_init_def hp)
  then have "run_dijkstra g s0 b = \<lparr>pq = [], reachable = Map.empty, visited = {s0}\<rparr>"
    unfolding run_dijkstra_def
    by (subst dijkstra_loop.simps, simp add: dijkstra_init_def)
       (subst dijkstra_loop.simps, simp)
  then show ?thesis by simp
qed

lemma run_dijkstra_inv:
  assumes "nonneg_costs g" "0 \<le> b"
  shows "search_inv g s0 b (run_dijkstra g s0 b) \<and> pq (run_dijkstra g s0 b) = []"
  unfolding run_dijkstra_def
  by (rule dijkstra_loop_inv) (auto intro: search_inv_step search_inv_init assms)

lemma run_dijkstra_correct:
  assumes nn: "nonneg_costs g"
  shows "reachable (run_dijkstra g s0 b) v = Some c \<longleftrightarrow> min_cost g s0 v c \<and> c \<le> b"
proof (cases "0 \<le> b")
  case True
  let ?s = "run_dijkstra g s0 b"
  from run_dijkstra_inv [OF nn True] have inv: "search_inv g s0 b ?s" and emp: "pq ?s = []"
    by simp_all
  show ?thesis
  proof
    assume "reachable ?s v = Some c"
    with inv show "min_cost g s0 v c \<and> c \<le> b" unfolding search_inv_def by blast
  next
    assume mc: "min_cost g s0 v c \<and> c \<le> b"
    then have "walk g s0 c v" by (simp add: min_cost_def)
    from search_inv_cover [OF inv nn this] emp mc
    obtain d where d: "reachable ?s v = Some d" by auto
    with inv have "min_cost g s0 v d" unfolding search_inv_def by blast
    with mc have "d = c" by (auto dest: min_cost_unique)
    with d show "reachable ?s v = Some c" by simp
  qed
next
  case False
  then have neg: "b < 0" by simp
  have "\<not> (min_cost g s0 v c \<and> c \<le> b)"
  proof
    assume "min_cost g s0 v c \<and> c \<le> b"
    then have "walk g s0 c v" "c \<le> b" by (simp_all add: min_cost_def)
    with walk_nonneg [OF this(1) nn] neg show False by simp
  qed
  then show ?thesis by (simp add: run_dijkstra_negative_budget [OF neg])
qed

lemma budget_inv_init: "0 \<le> b \<Longrightarrow> budget_inv b (dijkstra_init s0)"
  by (simp add: budget_inv_def dijkstra_init_def)

lemma budget_inv_step:
  assumes inv: "budget_inv b s" and ne: "pq s \<noteq> []"
  shows "budget_inv b (dijkstra_step g b s)"
proof -
  obtain c n q where hp: "heappop (pq s) = ((c, n), q)"
    by (metis prod.exhaust)
  note hpp = heappop_props [OF ne hp]
  from inv hpp(1) have cb: "c \<le> b" by (auto simp: budget_inv_def)
  from inv hpp(3) have q: "\<forall>e\<in>set q. fst e \<le> b" by (auto simp: budget_inv_def)
  show ?thesis
  proof (cases "n \<in> visited s")
    case True
    with hp inv q show ?thesis by (simp add: dijkstra_step_def budget_inv_def)
  next
    case False
    have "\<forall>e\<in>set (push_neighbours (insert n (visited s)) c b (adj g n) q). fst e \<le> b"
      using q unfolding set_push_neighbours by auto
    with hp inv False cb show ?thesis
      by (simp add: dijkstra_step_def budget_inv_def Let_def)
  qed
qed

lemma budget_inv_iter: "budget_inv b s \<Longrightarrow> budget_inv b (dijkstra_iter g b s)"
  by (simp add: dijkstra_iter_def budget_inv_step)

lemma budget_inv_funpow: "budget_inv b s \<Longrightarrow> budget_inv b ((dijkstra_iter g b ^^ k) s)"
  by (induction k) (simp_all add: budget_inv_iter)

lemma dijkstra_loop_funpow: "\<exists>k. dijkstra_loop g b s = (dijkstra_iter g b ^^ k) s"
proof (induction g b s rule: dijkstra_loop.induct)
  case (1 g budget s)
  show ?case
  proof (cases "pq s = []")
    case True
    then have "dijkstra_loop g budget s = (dijkstra_iter g budget ^^ 0) s"
      by (subst dijkstra_loop.simps) simp
    then show ?thesis by blast
  next
    case False
    from "1.IH" [OF False] obtain k where
      k: "dijkstra_loop g budget (dijkstra_step g budget s) = (dijkstra_iter g budget ^^ k) (dijkstra_step g budget s)"
      by blast
    have "dijkstra_loop g budget s = (dijkstra_iter g budget ^^ Suc k) s"
      using False k
      by (subst dijkstra_loop.simps) (simp add: funpow_swap1 dijkstra_iter_def)
    then show ?thesis by blast
  qed
qed

lemma run_dijkstra_budget_inv: "0 \<le> b \<Longrightarrow> budget_inv b (run_dijkstra g s0 b)"
  unfolding run_dijkstra_def
  using dijkstra_loop_inv [of "budget_inv b" g b "dijkstra_init s0"]
  by (auto intro: budget_inv_step budget_inv_init)

lemmas dijkstra_eval =
  run_dijkstra_def dijkstra_init_def dijkstra_loop.simps dijkstra_step_def
  heappop_def heappush_def adj_def Let_def

text \<open>
  Claim C1. On a graph without negative edge costs, \<open>reachable\<close> maps \<open>v\<close> to \<open>c\<close>
  exactly when \<open>c\<close> is the least cost of a walk from the origin to \<open>v\<close> and \<open>c\<close> is at
  most the budget. So its keys are the connectors whose least cost is within the budget,
  and a connector whose least cost is the budget itself is among them.
\<close>

theorem run_dijkstra_exact_within_budget:
  assumes "nonneg_costs g"
  shows "(reachable (run_dijkstra g origin_id walk_budget_s) v = Some c \<longleftrightarrow>
            min_cost g origin_id v c \<and> c \<le> walk_budget_s) \<and>
         dom (reachable (run_dijkstra g origin_id walk_budget_s)) =
            {v. \<exists>c. min_cost g origin_id v c \<and> c \<le> walk_budget_s} \<and>
         (min_cost g origin_id v walk_budget_s \<longrightarrow>
            reachable (run_dijkstra g origin_id walk_budget_s) v = Some walk_budget_s)"
proof (intro conjI)
  show "reachable (run_dijkstra g origin_id walk_budget_s) v = Some c \<longleftrightarrow>
            min_cost g origin_id v c \<and> c \<le> walk_budget_s"
    by (rule run_dijkstra_correct [OF assms])
  show "dom (reachable (run_dijkstra g origin_id walk_budget_s)) =
            {v. \<exists>c. min_cost g origin_id v c \<and> c \<le> walk_budget_s}"
    using run_dijkstra_correct [OF assms, of origin_id walk_budget_s] by (auto simp: dom_def)
  show "min_cost g origin_id v walk_budget_s \<longrightarrow>
            reachable (run_dijkstra g origin_id walk_budget_s) v = Some walk_budget_s"
    using run_dijkstra_correct [OF assms, of origin_id walk_budget_s v walk_budget_s] by simp
qed

theorem run_dijkstra_exact_within_budget_witness:
  "nonneg_costs
     (fmupd ''C'' [(''A'', 2, 2), (''B'', 2, 2)]
       (fmupd ''B'' [(''A'', 5, 5), (''C'', 2, 2)]
         (fmupd ''A'' [(''B'', 5, 5), (''C'', 2, 2)] fmempty))) \<and>
   reachable (run_dijkstra
     (fmupd ''C'' [(''A'', 2, 2), (''B'', 2, 2)]
       (fmupd ''B'' [(''A'', 5, 5), (''C'', 2, 2)]
         (fmupd ''A'' [(''B'', 5, 5), (''C'', 2, 2)] fmempty)))
     ''A'' 4) =
     [''A'' \<mapsto> 0, ''C'' \<mapsto> 2, ''B'' \<mapsto> 4] \<and>
   min_cost
     (fmupd ''C'' [(''A'', 2, 2), (''B'', 2, 2)]
       (fmupd ''B'' [(''A'', 5, 5), (''C'', 2, 2)]
         (fmupd ''A'' [(''B'', 5, 5), (''C'', 2, 2)] fmempty)))
     ''A'' ''B'' 4"
proof -
  let ?g = "fmupd ''C'' [(''A'', 2, 2), (''B'', 2, 2)]
       (fmupd ''B'' [(''A'', 5, 5), (''C'', 2, 2)]
         (fmupd ''A'' [(''B'', 5, 5), (''C'', 2::real, 2::real)] fmempty))"
  have n: "nonneg_costs ?g" by (auto simp: nonneg_costs_def adj_def)
  have r: "reachable (run_dijkstra ?g ''A'' 4) = [''A'' \<mapsto> 0, ''C'' \<mapsto> 2, ''B'' \<mapsto> 4]"
    by (simp add: dijkstra_eval)
  then have "reachable (run_dijkstra ?g ''A'' 4) ''B'' = Some 4" by simp
  with run_dijkstra_exact_within_budget [OF n, of "''A''" 4 "''B''" 4]
  have "min_cost ?g ''A'' ''B'' 4" by simp
  with n r show ?thesis by blast
qed

text \<open>
  Claim C5. On a graph without negative edge costs, the keys of \<open>reachable\<close> for a
  budget are among the keys for every larger budget.
\<close>

theorem run_dijkstra_budget_monotone:
  assumes "nonneg_costs g" and "b1 < b2"
  shows "dom (reachable (run_dijkstra g origin_id b1)) \<subseteq> dom (reachable (run_dijkstra g origin_id b2))"
proof
  fix v assume "v \<in> dom (reachable (run_dijkstra g origin_id b1))"
  then obtain c where "reachable (run_dijkstra g origin_id b1) v = Some c" by auto
  then have "min_cost g origin_id v c \<and> c \<le> b1"
    by (simp add: run_dijkstra_correct [OF assms(1)])
  with assms(2) have "min_cost g origin_id v c \<and> c \<le> b2" by simp
  then have "reachable (run_dijkstra g origin_id b2) v = Some c"
    by (simp add: run_dijkstra_correct [OF assms(1)])
  then show "v \<in> dom (reachable (run_dijkstra g origin_id b2))" by auto
qed

theorem run_dijkstra_budget_monotone_witness:
  "nonneg_costs
     (fmupd ''C'' [(''A'', 2, 2), (''B'', 2, 2)]
       (fmupd ''B'' [(''A'', 5, 5), (''C'', 2, 2)]
         (fmupd ''A'' [(''B'', 5, 5), (''C'', 2, 2)] fmempty))) \<and>
   (3::real) < 5 \<and>
   dom (reachable (run_dijkstra
     (fmupd ''C'' [(''A'', 2, 2), (''B'', 2, 2)]
       (fmupd ''B'' [(''A'', 5, 5), (''C'', 2, 2)]
         (fmupd ''A'' [(''B'', 5, 5), (''C'', 2, 2)] fmempty)))
     ''A'' 3)) = {''A'', ''C''} \<and>
   dom (reachable (run_dijkstra
     (fmupd ''C'' [(''A'', 2, 2), (''B'', 2, 2)]
       (fmupd ''B'' [(''A'', 5, 5), (''C'', 2, 2)]
         (fmupd ''A'' [(''B'', 5, 5), (''C'', 2, 2)] fmempty)))
     ''A'' 5)) = {''A'', ''B'', ''C''} \<and>
   dom (reachable (run_dijkstra
     (fmupd ''C'' [(''A'', 2, 2), (''B'', 2, 2)]
       (fmupd ''B'' [(''A'', 5, 5), (''C'', 2, 2)]
         (fmupd ''A'' [(''B'', 5, 5), (''C'', 2, 2)] fmempty)))
     ''A'' 3))
   \<subseteq> dom (reachable (run_dijkstra
     (fmupd ''C'' [(''A'', 2, 2), (''B'', 2, 2)]
       (fmupd ''B'' [(''A'', 5, 5), (''C'', 2, 2)]
         (fmupd ''A'' [(''B'', 5, 5), (''C'', 2, 2)] fmempty)))
     ''A'' 5))"
proof -
  let ?g = "fmupd ''C'' [(''A'', 2, 2), (''B'', 2, 2)]
       (fmupd ''B'' [(''A'', 5, 5), (''C'', 2, 2)]
         (fmupd ''A'' [(''B'', 5, 5), (''C'', 2::real, 2::real)] fmempty))"
  have n: "nonneg_costs ?g" by (auto simp: nonneg_costs_def adj_def)
  have l: "(3::real) < 5" by simp
  have d1: "dom (reachable (run_dijkstra ?g ''A'' 3)) = {''A'', ''C''}"
    by (simp add: dijkstra_eval insert_commute)
  have d2: "dom (reachable (run_dijkstra ?g ''A'' 5)) = {''A'', ''B'', ''C''}"
    by (simp add: dijkstra_eval insert_commute)
  from run_dijkstra_budget_monotone [OF n l, of "''A''"] n l d1 d2
  show ?thesis by blast
qed

text \<open>
  Claim C10. For a budget that is not negative, every entry of the queue after any
  number of iterations costs at most the budget, so the tuple popped next does too and
  the branch \<open>_cost > walk_budget_s\<close> is never taken; \<open>_visited\<close> is the key set of
  \<open>reachable\<close> after every iteration and in the result, so \<open>nodes_explored\<close> equals
  \<open>reachable_count\<close>.
\<close>

theorem run_dijkstra_budget_guard:
  assumes "0 \<le> walk_budget_s"
  shows "(\<forall>k. \<forall>e\<in>set (pq ((dijkstra_iter g walk_budget_s ^^ k) (dijkstra_init origin_id))).
            fst e \<le> walk_budget_s) \<and>
         (\<forall>k. pq ((dijkstra_iter g walk_budget_s ^^ k) (dijkstra_init origin_id)) \<noteq> [] \<longrightarrow>
            fst (fst (heappop (pq ((dijkstra_iter g walk_budget_s ^^ k) (dijkstra_init origin_id)))))
              \<le> walk_budget_s) \<and>
         (\<forall>k. visited ((dijkstra_iter g walk_budget_s ^^ k) (dijkstra_init origin_id)) =
               dom (reachable ((dijkstra_iter g walk_budget_s ^^ k) (dijkstra_init origin_id)))) \<and>
         (\<exists>k. run_dijkstra g origin_id walk_budget_s =
               (dijkstra_iter g walk_budget_s ^^ k) (dijkstra_init origin_id)) \<and>
         visited (run_dijkstra g origin_id walk_budget_s) =
           dom (reachable (run_dijkstra g origin_id walk_budget_s)) \<and>
         nodes_explored (run_dijkstra g origin_id walk_budget_s) =
           reachable_count (run_dijkstra g origin_id walk_budget_s)"
proof -
  let ?s = "\<lambda>k. (dijkstra_iter g walk_budget_s ^^ k) (dijkstra_init origin_id)"
  have inv: "budget_inv walk_budget_s (?s k)" for k
    by (rule budget_inv_funpow) (rule budget_inv_init [OF assms])
  have 1: "\<forall>k. \<forall>e\<in>set (pq (?s k)). fst e \<le> walk_budget_s"
    using inv by (simp add: budget_inv_def)
  have 2: "\<forall>k. pq (?s k) \<noteq> [] \<longrightarrow> fst (fst (heappop (pq (?s k)))) \<le> walk_budget_s"
  proof (intro allI impI)
    fix k assume ne: "pq (?s k) \<noteq> []"
    obtain m q where hp: "heappop (pq (?s k)) = (m, q)" by (metis prod.exhaust)
    from heappop_props(1) [OF ne hp] 1 have "fst m \<le> walk_budget_s" by blast
    with hp show "fst (fst (heappop (pq (?s k)))) \<le> walk_budget_s" by simp
  qed
  have 3: "\<forall>k. visited (?s k) = dom (reachable (?s k))"
    using inv by (simp add: budget_inv_def)
  have 4: "\<exists>k. run_dijkstra g origin_id walk_budget_s = ?s k"
    unfolding run_dijkstra_def by (rule dijkstra_loop_funpow)
  have 5: "visited (run_dijkstra g origin_id walk_budget_s) =
           dom (reachable (run_dijkstra g origin_id walk_budget_s))"
    using run_dijkstra_budget_inv [OF assms] by (simp add: budget_inv_def)
  then have 6: "nodes_explored (run_dijkstra g origin_id walk_budget_s) =
           reachable_count (run_dijkstra g origin_id walk_budget_s)"
    by (simp add: nodes_explored_def reachable_count_def)
  from 1 2 3 4 5 6 show ?thesis by blast
qed

theorem run_dijkstra_budget_guard_witness:
  "(0::real) \<le> 5 \<and>
   pq ((dijkstra_iter
     (fmupd ''C'' [(''A'', 2, 2), (''B'', 2, 2)]
       (fmupd ''B'' [(''A'', 5, 5), (''C'', 2, 2)]
         (fmupd ''A'' [(''B'', 5, 5), (''C'', 2, 2)] fmempty)))
     5 ^^ 2) (dijkstra_init ''A'')) = [(4, ''B''), (5, ''B'')] \<and>
   run_dijkstra
     (fmupd ''C'' [(''A'', 2, 2), (''B'', 2, 2)]
       (fmupd ''B'' [(''A'', 5, 5), (''C'', 2, 2)]
         (fmupd ''A'' [(''B'', 5, 5), (''C'', 2, 2)] fmempty)))
     ''A'' 5 =
     \<lparr>pq = [], reachable = [''A'' \<mapsto> 0, ''C'' \<mapsto> 2, ''B'' \<mapsto> 4],
      visited = {''A'', ''B'', ''C''}\<rparr> \<and>
   nodes_explored (run_dijkstra
     (fmupd ''C'' [(''A'', 2, 2), (''B'', 2, 2)]
       (fmupd ''B'' [(''A'', 5, 5), (''C'', 2, 2)]
         (fmupd ''A'' [(''B'', 5, 5), (''C'', 2, 2)] fmempty)))
     ''A'' 5) =
   reachable_count (run_dijkstra
     (fmupd ''C'' [(''A'', 2, 2), (''B'', 2, 2)]
       (fmupd ''B'' [(''A'', 5, 5), (''C'', 2, 2)]
         (fmupd ''A'' [(''B'', 5, 5), (''C'', 2, 2)] fmempty)))
     ''A'' 5)"
proof -
  let ?g = "fmupd ''C'' [(''A'', 2, 2), (''B'', 2, 2)]
       (fmupd ''B'' [(''A'', 5, 5), (''C'', 2, 2)]
         (fmupd ''A'' [(''B'', 5, 5), (''C'', 2::real, 2::real)] fmempty))"
  have l: "(0::real) \<le> 5" by simp
  have k: "pq ((dijkstra_iter ?g 5 ^^ 2) (dijkstra_init ''A'')) = [(4, ''B''), (5, ''B'')]"
    by (simp add: dijkstra_eval dijkstra_iter_def numeral_2_eq_2)
  have v: "run_dijkstra ?g ''A'' 5 =
     \<lparr>pq = [], reachable = [''A'' \<mapsto> 0, ''C'' \<mapsto> 2, ''B'' \<mapsto> 4],
      visited = {''A'', ''B'', ''C''}\<rparr>"
    by (simp add: dijkstra_eval insert_commute)
  from run_dijkstra_budget_guard [OF l, of ?g "''A''"]
  have "nodes_explored (run_dijkstra ?g ''A'' 5) = reachable_count (run_dijkstra ?g ''A'' 5)"
    by blast
  with l k v show ?thesis by blast
qed

section \<open>Isochrone bands and the pedshed ratio\<close>

lemma bands_loop_map_filter:
  "bands_loop svc pts bms =
     map (make_band svc pts) (filter (\<lambda>bm. 3 \<le> length (band_points pts bm)) bms)"
  by (induction bms) (auto simp: make_band_def band_points_def Let_def split: prod.splits)

lemma band_min_make_band [simp]: "band_min (make_band svc pts bm) = bm"
  by (simp add: make_band_def Let_def split: prod.splits)

lemma node_count_make_band [simp]:
  "node_count (make_band svc pts bm) = length (band_points pts bm)"
  by (simp add: make_band_def Let_def split: prod.splits)

lemma area_make_band:
  "area_m2 (make_band svc pts bm) = snd (hull_query svc (band_points pts bm))"
  "area_km2 (make_band svc pts bm) = snd (hull_query svc (band_points pts bm)) / 1000000"
  "area_ha (make_band svc pts bm) = snd (hull_query svc (band_points pts bm)) / 10000"
  "geojson (make_band svc pts bm) = fst (hull_query svc (band_points pts bm))"
  by (simp_all add: make_band_def Let_def split: prod.splits)

lemma band_thresholds_strict: "sorted_wrt (<) (band_thresholds b)"
proof -
  let ?bands = "sort (remdups (filter (\<lambda>x. real_of_int (x * 60) \<le> b) [5, 10, 15, 20]))"
  have s: "sorted ?bands" and d: "distinct ?bands" by simp_all
  show ?thesis
  proof (cases "py_int (b / 60) \<in> set ?bands")
    case True
    with s d show ?thesis
      by (simp add: band_thresholds_def Let_def strict_sorted_iff del: filter.simps)
  next
    case False
    then have "distinct (sort (?bands @ [py_int (b / 60)]))" using d by simp
    moreover have "sorted (sort (?bands @ [py_int (b / 60)]))" by simp
    ultimately show ?thesis using False
      by (simp add: band_thresholds_def Let_def strict_sorted_iff del: filter.simps)
  qed
qed

lemma band_points_mono:
  "bm \<le> bm' \<Longrightarrow> set (band_points pts bm) \<subseteq> set (band_points pts bm')"
  by (auto simp: band_points_def) 

lemma band_points_length_mono:
  "bm \<le> bm' \<Longrightarrow> length (band_points pts bm) \<le> length (band_points pts bm')"
proof -
  assume le: "bm \<le> bm'"
  have "band_points pts bm = filter (\<lambda>p. cost_s p \<le> real_of_int (bm * 60)) (band_points pts bm')"
    unfolding band_points_def using le by (auto intro!: filter_cong)
  then show ?thesis by (metis length_filter_le)
qed

lemma snd_hull_query:
  "snd (hull_query svc pts) = recorded_area svc (map (\<lambda>p. (p_lng p, p_lat p)) pts)"
  by (simp add: hull_query_def recorded_area_def split: option.splits)

lemma fst_compute_isochrone:
  "fst (compute_isochrone svc pts b) =
     map (make_band svc pts) (filter (\<lambda>bm. 3 \<le> length (band_points pts bm)) (band_thresholds b))"
  by (simp add: compute_isochrone_def Let_def bands_loop_map_filter)

lemma snd_compute_isochrone:
  "snd (compute_isochrone svc pts b) =
     (if fst (compute_isochrone svc pts b) \<noteq> [] then area_km2 (last (fst (compute_isochrone svc pts b))) else 0)"
  by (simp add: compute_isochrone_def Let_def)

lemma map_band_min_bands:
  "map band_min (fst (compute_isochrone svc pts b)) =
     filter (\<lambda>bm. 3 \<le> length (band_points pts bm)) (band_thresholds b)"
  by (simp add: fst_compute_isochrone o_def)

lemma bands_strict: "sorted_wrt (<) (map band_min (fst (compute_isochrone svc pts b)))"
  unfolding map_band_min_bands by (intro sorted_wrt_filter band_thresholds_strict)

lemma band_is_make_band:
  "x \<in> set (fst (compute_isochrone svc pts b)) \<Longrightarrow> x = make_band svc pts (band_min x)"
  by (auto simp: fst_compute_isochrone)

lemma bands_nth_less:
  assumes "i < j" "j < length (fst (compute_isochrone svc pts b))"
  shows "band_min (fst (compute_isochrone svc pts b) ! i) < band_min (fst (compute_isochrone svc pts b) ! j)"
  using sorted_wrt_nth_less [OF bands_strict [of svc pts b], of i j] assms by simp

lemma pedshed_area_km2_nonneg: "0 \<le> pedshed_area_km2 r"
  by (simp add: pedshed_area_km2_def pedshed_area_m2_def)

lemma last_band_largest:
  assumes "fst (compute_isochrone svc pts b) \<noteq> []"
    and "x \<in> set (fst (compute_isochrone svc pts b))"
  shows "band_min x \<le> band_min (last (fst (compute_isochrone svc pts b)))"
proof -
  let ?bands = "fst (compute_isochrone svc pts b)"
  from assms(2) obtain i where i: "i < length ?bands" "x = ?bands ! i"
    by (auto simp: in_set_conv_nth)
  have l: "last ?bands = ?bands ! (length ?bands - 1)"
    using assms(1) by (rule last_conv_nth)
  show ?thesis
  proof (cases "i = length ?bands - 1")
    case True
    with i l show ?thesis by simp
  next
    case False
    with i have lt: "i < length ?bands - 1" by simp
    from i have j: "length ?bands - 1 < length ?bands" by simp
    from bands_nth_less [OF lt j] i l show ?thesis by simp
  qed
qed

lemma band_area_nonneg:
  assumes "\<forall>ps gj am. svc ps = Some (gj, am) \<longrightarrow> 0 \<le> am"
    and "x \<in> set (fst (compute_isochrone svc pts b))"
  shows "0 \<le> area_km2 x"
proof -
  have "0 \<le> snd (hull_query svc qs)" for qs
    using assms(1) by (auto simp: hull_query_def split: option.splits)
  then have "0 \<le> area_km2 (make_band svc pts (band_min x))"
    by (simp add: area_make_band)
  with band_is_make_band [OF assms(2)] show ?thesis by simp
qed

lemmas bands_eval =
  compute_isochrone_def band_thresholds_def band_points_def hull_query_def py_int_def Let_def

text \<open>
  Claim C7. A threshold whose point subset has fewer than three points gets no band
  record. A threshold with at least three points for which the geometry query fails gets
  the record with no polygon and area zero. The thresholds that get a record are those
  with at least three points, whatever the geometry query does.
\<close>

theorem compute_isochrone_failure_local:
  "(\<forall>bm\<in>set (band_thresholds walk_budget_s).
      length (band_points reachable_points bm) < 3 \<longrightarrow>
      bm \<notin> band_min ` set (fst (compute_isochrone svc reachable_points walk_budget_s))) \<and>
   (\<forall>bm\<in>set (band_thresholds walk_budget_s).
      3 \<le> length (band_points reachable_points bm) \<and>
      svc (map (\<lambda>p. (p_lng p, p_lat p)) (band_points reachable_points bm)) = None \<longrightarrow>
      \<lparr>band_min = bm, band_s = bm * 60, node_count = length (band_points reachable_points bm),
       area_m2 = 0, area_km2 = 0, area_ha = 0, geojson = None\<rparr>
        \<in> set (fst (compute_isochrone svc reachable_points walk_budget_s))) \<and>
   map band_min (fst (compute_isochrone svc reachable_points walk_budget_s)) =
     filter (\<lambda>bm. 3 \<le> length (band_points reachable_points bm)) (band_thresholds walk_budget_s)"
proof (intro conjI ballI impI)
  fix bm assume "length (band_points reachable_points bm) < 3"
  then show "bm \<notin> band_min ` set (fst (compute_isochrone svc reachable_points walk_budget_s))"
    by (auto simp: fst_compute_isochrone)
next
  fix bm
  assume bm: "bm \<in> set (band_thresholds walk_budget_s)"
    and h: "3 \<le> length (band_points reachable_points bm) \<and>
      svc (map (\<lambda>p. (p_lng p, p_lat p)) (band_points reachable_points bm)) = None"
  then have "make_band svc reachable_points bm =
    \<lparr>band_min = bm, band_s = bm * 60, node_count = length (band_points reachable_points bm),
       area_m2 = 0, area_km2 = 0, area_ha = 0, geojson = None\<rparr>"
    by (simp add: make_band_def hull_query_def Let_def)
  moreover have "make_band svc reachable_points bm
      \<in> set (fst (compute_isochrone svc reachable_points walk_budget_s))"
    using bm h by (simp add: fst_compute_isochrone)
  ultimately show "\<lparr>band_min = bm, band_s = bm * 60, node_count = length (band_points reachable_points bm),
       area_m2 = 0, area_km2 = 0, area_ha = 0, geojson = None\<rparr>
        \<in> set (fst (compute_isochrone svc reachable_points walk_budget_s))" by simp
next
  show "map band_min (fst (compute_isochrone svc reachable_points walk_budget_s)) =
     filter (\<lambda>bm. 3 \<le> length (band_points reachable_points bm)) (band_thresholds walk_budget_s)"
    by (rule map_band_min_bands)
qed

theorem compute_isochrone_failure_local_witness:
  "band_thresholds 600 = [5, 10] \<and>
   length (band_points
      [\<lparr>p_id = ''A'', p_lat = 0, p_lng = 0, cost_s = 0, cost_min = 0\<rparr>,
       \<lparr>p_id = ''B'', p_lat = 0, p_lng = 1, cost_s = 60, cost_min = 1\<rparr>,
       \<lparr>p_id = ''C'', p_lat = 1, p_lng = 0, cost_s = 400, cost_min = 20/3\<rparr>] 5) = 2 \<and>
   length (band_points
      [\<lparr>p_id = ''A'', p_lat = 0, p_lng = 0, cost_s = 0, cost_min = 0\<rparr>,
       \<lparr>p_id = ''B'', p_lat = 0, p_lng = 1, cost_s = 60, cost_min = 1\<rparr>,
       \<lparr>p_id = ''C'', p_lat = 1, p_lng = 0, cost_s = 400, cost_min = 20/3\<rparr>] 10) = 3 \<and>
   fst (compute_isochrone (\<lambda>ps. None)
      [\<lparr>p_id = ''A'', p_lat = 0, p_lng = 0, cost_s = 0, cost_min = 0\<rparr>,
       \<lparr>p_id = ''B'', p_lat = 0, p_lng = 1, cost_s = 60, cost_min = 1\<rparr>,
       \<lparr>p_id = ''C'', p_lat = 1, p_lng = 0, cost_s = 400, cost_min = 20/3\<rparr>] 600) =
     [\<lparr>band_min = 10, band_s = 600, node_count = 3, area_m2 = 0, area_km2 = 0,
       area_ha = 0, geojson = None\<rparr>]"
proof -
  let ?svc = "\<lambda>ps :: (real \<times> real) list. None :: (string \<times> real) option"
  let ?pts = "[\<lparr>p_id = ''A'', p_lat = 0, p_lng = 0, cost_s = 0, cost_min = 0\<rparr>,
       \<lparr>p_id = ''B'', p_lat = 0, p_lng = 1, cost_s = 60, cost_min = 1\<rparr>,
       \<lparr>p_id = ''C'', p_lat = 1, p_lng = 0, cost_s = 400, cost_min = 20/3\<rparr>]"
  have t: "band_thresholds 600 = [5, 10]" by (simp add: bands_eval)
  have l5: "length (band_points ?pts 5) = 2" by (simp add: band_points_def)
  have l10: "length (band_points ?pts 10) = 3" by (simp add: band_points_def)
  have b: "fst (compute_isochrone ?svc ?pts 600) =
     [\<lparr>band_min = 10, band_s = 600, node_count = 3, area_m2 = 0, area_km2 = 0,
       area_ha = 0, geojson = None\<rparr>]"
    by (simp add: bands_eval)
  from compute_isochrone_failure_local [of 600 ?pts ?svc] t l5 l10 b show ?thesis by simp
qed

text \<open>
  Claim C8. The ratio is zero when there is no band or the circle area is zero, and
  otherwise the area of the last band divided by the circle area, which is
  \<open>pi * walk_range_m\<^sup>2\<close> in square kilometres for
  \<open>walk_range_m = walk_speed_ms * walk_budget_s\<close>. The last band has the largest threshold.
  The ratio is not negative when the geometry query returns no negative area.
\<close>

theorem pedshed_ratio_value:
  "pedshed (snd (compute_isochrone svc reachable_points walk_budget_s))
       (pedshed_area_km2 (walk_speed_ms * walk_budget_s)) =
     (if fst (compute_isochrone svc reachable_points walk_budget_s) = [] \<or>
         pedshed_area_km2 (walk_speed_ms * walk_budget_s) = 0
      then 0
      else area_km2 (last (fst (compute_isochrone svc reachable_points walk_budget_s))) /
           pedshed_area_km2 (walk_speed_ms * walk_budget_s)) \<and>
   pedshed_area_km2 (walk_speed_ms * walk_budget_s) =
     pi * (walk_speed_ms * walk_budget_s)\<^sup>2 / 1000000 \<and>
   (\<forall>x\<in>set (fst (compute_isochrone svc reachable_points walk_budget_s)).
      band_min x \<le> band_min (last (fst (compute_isochrone svc reachable_points walk_budget_s))) \<and>
      area_km2 x = area_m2 x / 1000000) \<and>
   ((\<forall>ps gj am. svc ps = Some (gj, am) \<longrightarrow> 0 \<le> am) \<longrightarrow>
      0 \<le> pedshed (snd (compute_isochrone svc reachable_points walk_budget_s))
            (pedshed_area_km2 (walk_speed_ms * walk_budget_s)))"
proof -
  let ?bands = "fst (compute_isochrone svc reachable_points walk_budget_s)"
  let ?iso = "snd (compute_isochrone svc reachable_points walk_budget_s)"
  let ?circ = "pedshed_area_km2 (walk_speed_ms * walk_budget_s)"
  have c0: "0 \<le> ?circ" by (rule pedshed_area_km2_nonneg)
  have 1: "pedshed ?iso ?circ =
     (if ?bands = [] \<or> ?circ = 0 then 0 else area_km2 (last ?bands) / ?circ)"
    using c0 by (auto simp: pedshed_def snd_compute_isochrone)
  have 2: "?circ = pi * (walk_speed_ms * walk_budget_s)\<^sup>2 / 1000000"
    by (simp add: pedshed_area_km2_def pedshed_area_m2_def)
  have 3: "\<forall>x\<in>set ?bands. band_min x \<le> band_min (last ?bands) \<and> area_km2 x = area_m2 x / 1000000"
  proof
    fix x assume x: "x \<in> set ?bands"
    then have ne: "?bands \<noteq> []" by auto
    have "area_km2 (make_band svc reachable_points (band_min x)) =
          area_m2 (make_band svc reachable_points (band_min x)) / 1000000"
      by (simp add: area_make_band)
    with band_is_make_band [OF x] last_band_largest [OF ne x]
    show "band_min x \<le> band_min (last ?bands) \<and> area_km2 x = area_m2 x / 1000000" by simp
  qed
  have 4: "0 \<le> pedshed ?iso ?circ" if nn: "\<forall>ps gj am. svc ps = Some (gj, am) \<longrightarrow> 0 \<le> am"
  proof (cases "?bands = []")
    case True
    then show ?thesis by (simp add: pedshed_def snd_compute_isochrone)
  next
    case False
    then have "last ?bands \<in> set ?bands" by simp
    from band_area_nonneg [OF nn this] have "0 \<le> ?iso"
      using False by (simp add: snd_compute_isochrone)
    with c0 show ?thesis by (simp add: pedshed_def)
  qed
  from 1 2 3 4 show ?thesis by blast
qed

theorem pedshed_ratio_value_witness:
  "fst (compute_isochrone (\<lambda>ps. Some (''hull'', 360000))
      [\<lparr>p_id = ''A'', p_lat = 0, p_lng = 0, cost_s = 0, cost_min = 0\<rparr>,
       \<lparr>p_id = ''B'', p_lat = 0, p_lng = 1, cost_s = 60, cost_min = 1\<rparr>,
       \<lparr>p_id = ''C'', p_lat = 1, p_lng = 0, cost_s = 120, cost_min = 2\<rparr>] 600) =
     [\<lparr>band_min = 5, band_s = 300, node_count = 3, area_m2 = 360000, area_km2 = 9/25,
       area_ha = 36, geojson = Some ''hull''\<rparr>,
      \<lparr>band_min = 10, band_s = 600, node_count = 3, area_m2 = 360000, area_km2 = 9/25,
       area_ha = 36, geojson = Some ''hull''\<rparr>] \<and>
   pedshed (snd (compute_isochrone (\<lambda>ps. Some (''hull'', 360000))
      [\<lparr>p_id = ''A'', p_lat = 0, p_lng = 0, cost_s = 0, cost_min = 0\<rparr>,
       \<lparr>p_id = ''B'', p_lat = 0, p_lng = 1, cost_s = 60, cost_min = 1\<rparr>,
       \<lparr>p_id = ''C'', p_lat = 1, p_lng = 0, cost_s = 120, cost_min = 2\<rparr>] 600))
     (pedshed_area_km2 (1 * 600)) = 1 / pi \<and>
   0 \<le> pedshed (snd (compute_isochrone (\<lambda>ps. Some (''hull'', 360000))
      [\<lparr>p_id = ''A'', p_lat = 0, p_lng = 0, cost_s = 0, cost_min = 0\<rparr>,
       \<lparr>p_id = ''B'', p_lat = 0, p_lng = 1, cost_s = 60, cost_min = 1\<rparr>,
       \<lparr>p_id = ''C'', p_lat = 1, p_lng = 0, cost_s = 120, cost_min = 2\<rparr>] 600))
     (pedshed_area_km2 (1 * 600))"
proof -
  let ?svc = "\<lambda>ps :: (real \<times> real) list. Some (''hull'', 360000 :: real)"
  let ?pts = "[\<lparr>p_id = ''A'', p_lat = 0, p_lng = 0, cost_s = 0, cost_min = 0\<rparr>,
       \<lparr>p_id = ''B'', p_lat = 0, p_lng = 1, cost_s = 60, cost_min = 1\<rparr>,
       \<lparr>p_id = ''C'', p_lat = 1, p_lng = 0, cost_s = 120, cost_min = 2\<rparr>]"
  have b: "fst (compute_isochrone ?svc ?pts 600) =
     [\<lparr>band_min = 5, band_s = 300, node_count = 3, area_m2 = 360000, area_km2 = 9/25,
       area_ha = 36, geojson = Some ''hull''\<rparr>,
      \<lparr>band_min = 10, band_s = 600, node_count = 3, area_m2 = 360000, area_km2 = 9/25,
       area_ha = 36, geojson = Some ''hull''\<rparr>]"
    by (simp add: bands_eval)
  have n: "\<forall>ps gj am. ?svc ps = Some (gj, am) \<longrightarrow> 0 \<le> am" by simp
  have c: "pedshed_area_km2 (1 * 600) = 9 / 25 * pi"
    by (simp add: pedshed_area_km2_def pedshed_area_m2_def)
  have i: "snd (compute_isochrone ?svc ?pts 600) = 9 / 25"
    by (simp add: bands_eval)
  have val: "pedshed (snd (compute_isochrone ?svc ?pts 600)) (pedshed_area_km2 (1 * 600)) = 1 / pi"
    unfolding i c by (simp add: pedshed_def)
  from pedshed_ratio_value [of ?svc ?pts 600 1] n
  have nonneg: "0 \<le> pedshed (snd (compute_isochrone ?svc ?pts 600)) (pedshed_area_km2 (1 * 600))"
    by blast
  from b val nonneg show ?thesis by blast
qed

text \<open>
  Claim C9, as amended. The thresholds of the bands are strictly increasing, the point
  subset of a band includes that of every earlier band, and the node counts do not
  decrease. The recorded areas do not decrease when the area recorded for a point list
  (zero after a failed query) is monotone in the set of points.
\<close>

theorem isochrone_band_order:
  "sorted_wrt (<) (map band_min (fst (compute_isochrone svc reachable_points walk_budget_s))) \<and>
   (\<forall>b\<in>set (fst (compute_isochrone svc reachable_points walk_budget_s)).
      node_count b = length (band_points reachable_points (band_min b))) \<and>
   (\<forall>i j. i < j \<and> j < length (fst (compute_isochrone svc reachable_points walk_budget_s)) \<longrightarrow>
      set (band_points reachable_points
             (band_min (fst (compute_isochrone svc reachable_points walk_budget_s) ! i)))
        \<subseteq> set (band_points reachable_points
             (band_min (fst (compute_isochrone svc reachable_points walk_budget_s) ! j))) \<and>
      node_count (fst (compute_isochrone svc reachable_points walk_budget_s) ! i)
        \<le> node_count (fst (compute_isochrone svc reachable_points walk_budget_s) ! j)) \<and>
   ((\<forall>ps qs. set ps \<subseteq> set qs \<longrightarrow> recorded_area svc ps \<le> recorded_area svc qs) \<longrightarrow>
    (\<forall>i j. i < j \<and> j < length (fst (compute_isochrone svc reachable_points walk_budget_s)) \<longrightarrow>
      area_m2 (fst (compute_isochrone svc reachable_points walk_budget_s) ! i)
        \<le> area_m2 (fst (compute_isochrone svc reachable_points walk_budget_s) ! j)))"
proof -
  let ?bands = "fst (compute_isochrone svc reachable_points walk_budget_s)"
  have mk: "?bands ! k = make_band svc reachable_points (band_min (?bands ! k))"
    if "k < length ?bands" for k
    using that by (intro band_is_make_band [of _ svc reachable_points walk_budget_s]) simp
  have 1: "sorted_wrt (<) (map band_min ?bands)" by (rule bands_strict)
  have 2: "\<forall>b\<in>set ?bands. node_count b = length (band_points reachable_points (band_min b))"
    using band_is_make_band [of _ svc reachable_points walk_budget_s]
    by (metis node_count_make_band)
  have 3: "set (band_points reachable_points (band_min (?bands ! i)))
        \<subseteq> set (band_points reachable_points (band_min (?bands ! j))) \<and>
      node_count (?bands ! i) \<le> node_count (?bands ! j)"
    if "i < j \<and> j < length ?bands" for i j
  proof -
    from that have lt: "band_min (?bands ! i) < band_min (?bands ! j)"
      by (intro bands_nth_less) simp_all
    from that have i: "i < length ?bands" and j: "j < length ?bands" by simp_all
    have "node_count (?bands ! i) = length (band_points reachable_points (band_min (?bands ! i)))"
      using 2 i by simp
    moreover have "node_count (?bands ! j) = length (band_points reachable_points (band_min (?bands ! j)))"
      using 2 j by simp
    ultimately show ?thesis
      using band_points_mono [of "band_min (?bands ! i)" "band_min (?bands ! j)" reachable_points]
        band_points_length_mono [of "band_min (?bands ! i)" "band_min (?bands ! j)" reachable_points] lt
      by simp
  qed
  have 4: "area_m2 (?bands ! i) \<le> area_m2 (?bands ! j)"
    if mono: "\<forall>ps qs. set ps \<subseteq> set qs \<longrightarrow> recorded_area svc ps \<le> recorded_area svc qs"
      and ij: "i < j \<and> j < length ?bands" for i j
  proof -
    let ?c = "\<lambda>k. map (\<lambda>p. (p_lng p, p_lat p)) (band_points reachable_points (band_min (?bands ! k)))"
    from ij have i: "i < length ?bands" and j: "j < length ?bands" by simp_all
    have ai: "area_m2 (?bands ! i) = recorded_area svc (?c i)"
      by (subst mk [OF i]) (simp add: area_make_band snd_hull_query)
    have aj: "area_m2 (?bands ! j) = recorded_area svc (?c j)"
      by (subst mk [OF j]) (simp add: area_make_band snd_hull_query)
    from 3 [OF ij] have "set (?c i) \<subseteq> set (?c j)" by auto
    with mono show ?thesis unfolding ai aj by blast
  qed
  from 1 2 3 4 show ?thesis by blast
qed

theorem isochrone_band_order_witness:
  "map band_min (fst (compute_isochrone
      (\<lambda>ps. Some (''hull'', real (card (set ps))))
      [\<lparr>p_id = ''A'', p_lat = 0, p_lng = 0, cost_s = 0, cost_min = 0\<rparr>,
       \<lparr>p_id = ''B'', p_lat = 0, p_lng = 1, cost_s = 60, cost_min = 1\<rparr>,
       \<lparr>p_id = ''C'', p_lat = 1, p_lng = 0, cost_s = 120, cost_min = 2\<rparr>,
       \<lparr>p_id = ''D'', p_lat = 1, p_lng = 1, cost_s = 400, cost_min = 20/3\<rparr>] 600)) = [5, 10] \<and>
   map node_count (fst (compute_isochrone
      (\<lambda>ps. Some (''hull'', real (card (set ps))))
      [\<lparr>p_id = ''A'', p_lat = 0, p_lng = 0, cost_s = 0, cost_min = 0\<rparr>,
       \<lparr>p_id = ''B'', p_lat = 0, p_lng = 1, cost_s = 60, cost_min = 1\<rparr>,
       \<lparr>p_id = ''C'', p_lat = 1, p_lng = 0, cost_s = 120, cost_min = 2\<rparr>,
       \<lparr>p_id = ''D'', p_lat = 1, p_lng = 1, cost_s = 400, cost_min = 20/3\<rparr>] 600)) = [3, 4] \<and>
   area_m2 (fst (compute_isochrone
      (\<lambda>ps. Some (''hull'', real (card (set ps))))
      [\<lparr>p_id = ''A'', p_lat = 0, p_lng = 0, cost_s = 0, cost_min = 0\<rparr>,
       \<lparr>p_id = ''B'', p_lat = 0, p_lng = 1, cost_s = 60, cost_min = 1\<rparr>,
       \<lparr>p_id = ''C'', p_lat = 1, p_lng = 0, cost_s = 120, cost_min = 2\<rparr>,
       \<lparr>p_id = ''D'', p_lat = 1, p_lng = 1, cost_s = 400, cost_min = 20/3\<rparr>] 600) ! 0)
   \<le> area_m2 (fst (compute_isochrone
      (\<lambda>ps. Some (''hull'', real (card (set ps))))
      [\<lparr>p_id = ''A'', p_lat = 0, p_lng = 0, cost_s = 0, cost_min = 0\<rparr>,
       \<lparr>p_id = ''B'', p_lat = 0, p_lng = 1, cost_s = 60, cost_min = 1\<rparr>,
       \<lparr>p_id = ''C'', p_lat = 1, p_lng = 0, cost_s = 120, cost_min = 2\<rparr>,
       \<lparr>p_id = ''D'', p_lat = 1, p_lng = 1, cost_s = 400, cost_min = 20/3\<rparr>] 600) ! 1)"
proof -
  let ?svc = "\<lambda>ps :: (real \<times> real) list. Some (''hull'', real (card (set ps)))"
  let ?pts = "[\<lparr>p_id = ''A'', p_lat = 0, p_lng = 0, cost_s = 0, cost_min = 0\<rparr>,
       \<lparr>p_id = ''B'', p_lat = 0, p_lng = 1, cost_s = 60, cost_min = 1\<rparr>,
       \<lparr>p_id = ''C'', p_lat = 1, p_lng = 0, cost_s = 120, cost_min = 2\<rparr>,
       \<lparr>p_id = ''D'', p_lat = 1, p_lng = 1, cost_s = 400, cost_min = 20/3\<rparr>]"
  have m: "\<forall>ps qs. set ps \<subseteq> set qs \<longrightarrow> recorded_area ?svc ps \<le> recorded_area ?svc qs"
    by (simp add: recorded_area_def card_mono)
  have bm: "map band_min (fst (compute_isochrone ?svc ?pts 600)) = [5, 10]"
    by (simp add: bands_eval)
  have nc: "map node_count (fst (compute_isochrone ?svc ?pts 600)) = [3, 4]"
    by (simp add: bands_eval)
  from bm have len: "length (fst (compute_isochrone ?svc ?pts 600)) = 2"
    by (metis length_map length_Cons list.size(3) numeral_2_eq_2)
  from isochrone_band_order [of ?svc ?pts 600] m
  have "\<forall>i j. i < j \<and> j < length (fst (compute_isochrone ?svc ?pts 600)) \<longrightarrow>
      area_m2 (fst (compute_isochrone ?svc ?pts 600) ! i)
        \<le> area_m2 (fst (compute_isochrone ?svc ?pts 600) ! j)" by blast
  then have "area_m2 (fst (compute_isochrone ?svc ?pts 600) ! 0)
        \<le> area_m2 (fst (compute_isochrone ?svc ?pts 600) ! 1)"
    using len by simp
  with bm nc show ?thesis by simp
qed

text \<open>
  The recorded area can decrease: when the query succeeds with area 100 on the three
  points of the 5-minute band and fails on the four points of the 10-minute band, the
  recorded areas are 100 and 0.
\<close>

theorem isochrone_band_area_counterexample:
  "map band_min (fst (compute_isochrone
      (\<lambda>ps. if length ps \<le> 3 then Some (''hull'', 100) else None)
      [\<lparr>p_id = ''A'', p_lat = 0, p_lng = 0, cost_s = 0, cost_min = 0\<rparr>,
       \<lparr>p_id = ''B'', p_lat = 0, p_lng = 1, cost_s = 60, cost_min = 1\<rparr>,
       \<lparr>p_id = ''C'', p_lat = 1, p_lng = 0, cost_s = 120, cost_min = 2\<rparr>,
       \<lparr>p_id = ''D'', p_lat = 1, p_lng = 1, cost_s = 400, cost_min = 20/3\<rparr>] 600)) = [5, 10] \<and>
   map area_m2 (fst (compute_isochrone
      (\<lambda>ps. if length ps \<le> 3 then Some (''hull'', 100) else None)
      [\<lparr>p_id = ''A'', p_lat = 0, p_lng = 0, cost_s = 0, cost_min = 0\<rparr>,
       \<lparr>p_id = ''B'', p_lat = 0, p_lng = 1, cost_s = 60, cost_min = 1\<rparr>,
       \<lparr>p_id = ''C'', p_lat = 1, p_lng = 0, cost_s = 120, cost_min = 2\<rparr>,
       \<lparr>p_id = ''D'', p_lat = 1, p_lng = 1, cost_s = 400, cost_min = 20/3\<rparr>] 600)) = [100, 0] \<and>
   map geojson (fst (compute_isochrone
      (\<lambda>ps. if length ps \<le> 3 then Some (''hull'', 100) else None)
      [\<lparr>p_id = ''A'', p_lat = 0, p_lng = 0, cost_s = 0, cost_min = 0\<rparr>,
       \<lparr>p_id = ''B'', p_lat = 0, p_lng = 1, cost_s = 60, cost_min = 1\<rparr>,
       \<lparr>p_id = ''C'', p_lat = 1, p_lng = 0, cost_s = 120, cost_min = 2\<rparr>,
       \<lparr>p_id = ''D'', p_lat = 1, p_lng = 1, cost_s = 400, cost_min = 20/3\<rparr>] 600)) =
     [Some ''hull'', None]"
  by (simp add: bands_eval)

end
